theory Spec2Isabelle
  imports Main "HOL-Library.Sublist"
begin

section \<open>The address parser of the standard library\<close>

text \<open>\<open>is_valid_email\<close> (lines 28-36 of \<open>src/main.py\<close>) is \<open>'@' in parseaddr(email)[1]\<close>, with
  \<open>parseaddr\<close> of \<open>email.utils\<close>: what it returns is decided by the parser of the standard
  library. The parser is transcribed here from CPython 3.11.10, files \<open>email/_parseaddr.py\<close>
  (class \<open>AddrlistClass\<close>) and \<open>email/utils.py\<close> (\<open>parseaddr\<close> with its default \<open>strict=True\<close>).

  The class keeps the header field, an index \<open>pos\<close> into it and the list \<open>commentlist\<close> as
  attributes that its methods update; the field is only ever read at \<open>pos\<close> or after it.
  Here a method takes the rest of the field from \<open>pos\<close> on and the comment list, and returns
  its result together with the rest of the field and the comment list it leaves. A \<open>while\<close>
  loop is a recursive function named after its method with the suffix \<open>_loop\<close>, whose
  first arguments are the variables the loop updates. Characters are the 256 code points of
  \<open>char\<close>.\<close>

subsection \<open>Character classes\<close>

definition specials :: string where
  "specials = [CHR ''('', CHR '')'', CHR ''<'', CHR ''>'', CHR ''@'', CHR '','', CHR '':'',
               CHR '';'', CHR ''.'', CHR 0x22, CHR ''['', CHR '']'']"

definition LWS :: string where "LWS = [CHR '' '', CHR 0x09]"
definition CR :: string where "CR = [CHR 0x0D, CHR 0x0A]"
definition FWS :: string where "FWS = LWS @ CR"
definition atomends :: string where "atomends = specials @ LWS @ CR"
definition phraseends :: string where "phraseends = filter (\<lambda>c. c \<noteq> CHR ''.'') atomends"

subsection \<open>Atoms and delimited text\<close>

text \<open>\<open>getatom\<close> collects the characters up to the first one of \<open>atomends\<close>. \<open>getdelimited\<close> reads
  the text between \<open>beginchar\<close> and the first of \<open>endchars\<close>, a backslash quoting the next
  character and, where \<open>allowcomments\<close> is set, a parenthesis opening a nested comment; the
  recursion on the comment is the call of \<open>getcomment\<close> in the loop. \<open>getdelimited\<close> reads
  \<open>field[pos]\<close> without a bounds check: every call in the class is made with \<open>pos\<close> inside
  the field, and at the end of the field the function here returns the empty string.\<close>

fun getatom_loop :: "string \<Rightarrow> string list \<Rightarrow> string \<Rightarrow> string \<times> string" where
  "getatom_loop ends atomlist [] = (concat atomlist, [])"
| "getatom_loop ends atomlist (c # s) =
     (if c \<in> set ends then (concat atomlist, c # s)
      else getatom_loop ends (atomlist @ [[c]]) s)"

function getdelimited_loop :: "string \<Rightarrow> bool \<Rightarrow> string list \<Rightarrow> bool \<Rightarrow> string \<Rightarrow> string \<times> string" where
  "getdelimited_loop endchars allowcomments slist quote [] = (concat slist, [])"
| "getdelimited_loop endchars allowcomments slist quote (c # s) =
     (if quote then getdelimited_loop endchars allowcomments (slist @ [[c]]) False s
      else if c \<in> set endchars then (concat slist, s)
      else if allowcomments \<and> c = CHR ''('' then
        (case getdelimited_loop [CHR '')'', CHR 0x0D] True [[]] False s of
           (comment, s') \<Rightarrow> getdelimited_loop endchars allowcomments (slist @ [comment]) False s')
      else if c = CHR 0x5C then getdelimited_loop endchars allowcomments slist True s
      else getdelimited_loop endchars allowcomments (slist @ [[c]]) False s)"
  by pat_completeness auto

lemma getdelimited_loop_length:
  "getdelimited_loop_dom (e, a, sl, q, s) \<Longrightarrow> length (snd (getdelimited_loop e a sl q s)) \<le> length s"
proof (induction e a sl q s rule: getdelimited_loop.pinduct)
  case (1 endchars allowcomments slist quote)
  then show ?case by (simp add: getdelimited_loop.psimps)
next
  case (2 endchars allowcomments slist quote c s)
  show ?case
  proof (cases "getdelimited_loop [CHR '')'', CHR 0x0D] True [[]] False s")
    case (Pair comment s')
    have n: "\<not> quote \<Longrightarrow> c \<notin> set endchars \<Longrightarrow> allowcomments \<and> c = CHR ''(''
         \<Longrightarrow> length (snd (getdelimited_loop endchars allowcomments (slist @ [comment]) False s')) \<le> length s"
      using 2(3) 2(4)[OF _ _ _ Pair[symmetric]] Pair by fastforce
    show ?thesis
      using 2(1) 2(2) 2(5) 2(6) n Pair
      by (auto simp: getdelimited_loop.psimps le_SucI)
  qed
qed

lemma getdelimited_loop_length':
  "getdelimited_loop_dom (e, a, sl, q, s) \<Longrightarrow> (x, y) = getdelimited_loop e a sl q s \<Longrightarrow> length y < Suc (length s)"
  using getdelimited_loop_length[of e a sl q s] by (metis le_imp_less_Suc snd_conv)

termination getdelimited_loop
  by (relation "measure (\<lambda>(e, a, sl, q, s). length s)")
     (auto intro: getdelimited_loop_length')

definition getatom :: "string \<Rightarrow> string \<Rightarrow> string \<times> string" where
  "getatom ends s = getatom_loop ends [[]] s"

definition getdelimited :: "char \<Rightarrow> string \<Rightarrow> bool \<Rightarrow> string \<Rightarrow> string \<times> string" where
  "getdelimited beginchar endchars allowcomments s =
     (case s of
        [] \<Rightarrow> ([], [])
      | c # r \<Rightarrow> if c \<noteq> beginchar then ([], s)
                 else getdelimited_loop endchars allowcomments [[]] False r)"

definition getquote :: "string \<Rightarrow> string \<times> string" where
  "getquote s = getdelimited (CHR 0x22) [CHR 0x22, CHR 0x0D] False s"

definition getcomment :: "string \<Rightarrow> string \<times> string" where
  "getcomment s = getdelimited (CHR ''('') [CHR '')'', CHR 0x0D] True s"

definition getdomainliteral :: "string \<Rightarrow> string \<times> string" where
  "getdomainliteral s =
     (case getdelimited (CHR ''['') [CHR '']'', CHR 0x0D] False s of
        (x, r) \<Rightarrow> ([CHR ''[''] @ x @ [CHR '']''], r))"

lemma getatom_loop_length: "length (snd (getatom_loop ends al s)) \<le> length s"
  by (induction ends al s rule: getatom_loop.induct) (auto simp: le_SucI)

lemma getatom_shorter:
  "c \<notin> set ends \<Longrightarrow> (a, r) = getatom ends (c # s) \<Longrightarrow> length r < Suc (length s)"
  using getatom_loop_length[of ends "[[]] @ [[c]]" s]
  by (simp add: getatom_def) (metis le_imp_less_Suc snd_conv)

lemma getdelimited_loop_le: "length (snd (getdelimited_loop e a sl q s)) \<le> length s"
  by (induction e a sl q s rule: getdelimited_loop.induct)
     (auto simp: le_SucI split: prod.splits)

lemma getdelimited_shorter:
  "(x, r) = getdelimited b e a (b # s) \<Longrightarrow> length r < Suc (length s)"
  using getdelimited_loop_le[of e a "[[]]" False s]
  by (simp add: getdelimited_def) (metis le_imp_less_Suc snd_conv)

lemma getcomment_shorter: "(x, r) = getcomment (CHR ''('' # s) \<Longrightarrow> length r < Suc (length s)"
  unfolding getcomment_def by (rule getdelimited_shorter)

lemma getquote_shorter: "(x, r) = getquote (CHR 0x22 # s) \<Longrightarrow> length r < Suc (length s)"
  unfolding getquote_def by (rule getdelimited_shorter)

lemma getdomainliteral_shorter:
  "(x, r) = getdomainliteral (CHR ''['' # s) \<Longrightarrow> length r < Suc (length s)"
  unfolding getdomainliteral_def
  by (auto split: prod.splits intro: getdelimited_shorter[OF sym])

subsection \<open>White space, phrases and domains\<close>

text \<open>\<open>gotonext\<close> skips white space and comments, appends the comments to the comment list and
  returns the white space skipped. \<open>getphraselist\<close> reads a sequence of words and quoted
  strings, \<open>getdomain\<close> the domain after the \<open>@\<close> of an address.\<close>

function gotonext_loop :: "string list \<Rightarrow> string \<Rightarrow> string list \<Rightarrow> string \<times> string \<times> string list" where
  "gotonext_loop wslist [] cl = (concat wslist, [], cl)"
| "gotonext_loop wslist (c # s) cl =
     (if c \<in> set (LWS @ [CHR 0x0A, CHR 0x0D]) then
        gotonext_loop (if c \<notin> set [CHR 0x0A, CHR 0x0D] then wslist @ [[c]] else wslist) s cl
      else if c = CHR ''('' then
        (case getcomment (c # s) of (comment, s') \<Rightarrow> gotonext_loop wslist s' (cl @ [comment]))
      else (concat wslist, c # s, cl))"
  by pat_completeness auto
termination
  by (relation "measure (\<lambda>(w, s, cl). length s)") (auto intro: getcomment_shorter)

definition gotonext :: "string \<Rightarrow> string list \<Rightarrow> string \<times> string \<times> string list" where
  "gotonext s cl = gotonext_loop [] s cl"

function getphraselist_loop :: "string list \<Rightarrow> string \<Rightarrow> string list \<Rightarrow> string list \<times> string \<times> string list" where
  "getphraselist_loop plist [] cl = (plist, [], cl)"
| "getphraselist_loop plist (c # s) cl =
     (if c \<in> set FWS then getphraselist_loop plist s cl
      else if c = CHR 0x22 then
        (case getquote (c # s) of (q, s') \<Rightarrow> getphraselist_loop (plist @ [q]) s' cl)
      else if c = CHR ''('' then
        (case getcomment (c # s) of (comment, s') \<Rightarrow> getphraselist_loop plist s' (cl @ [comment]))
      else if c \<in> set phraseends then (plist, c # s, cl)
      else (case getatom phraseends (c # s) of (a, s') \<Rightarrow> getphraselist_loop (plist @ [a]) s' cl))"
  by pat_completeness auto
termination
  by (relation "measure (\<lambda>(p, s, cl). length s)")
     (auto intro: getcomment_shorter getquote_shorter getatom_shorter)

definition getphraselist :: "string \<Rightarrow> string list \<Rightarrow> string list \<times> string \<times> string list" where
  "getphraselist s cl = getphraselist_loop [] s cl"

function getdomain_loop :: "string list \<Rightarrow> string \<Rightarrow> string list \<Rightarrow> string \<times> string \<times> string list" where
  "getdomain_loop sdlist [] cl = (concat sdlist, [], cl)"
| "getdomain_loop sdlist (c # s) cl =
     (if c \<in> set LWS then getdomain_loop sdlist s cl
      else if c = CHR ''('' then
        (case getcomment (c # s) of (comment, s') \<Rightarrow> getdomain_loop sdlist s' (cl @ [comment]))
      else if c = CHR ''['' then
        (case getdomainliteral (c # s) of (dl, s') \<Rightarrow> getdomain_loop (sdlist @ [dl]) s' cl)
      else if c = CHR ''.'' then getdomain_loop (sdlist @ [[CHR ''.'']]) s cl
      else if c = CHR ''@'' then ([], c # s, cl)
      else if c \<in> set atomends then (concat sdlist, c # s, cl)
      else (case getatom atomends (c # s) of (a, s') \<Rightarrow> getdomain_loop (sdlist @ [a]) s' cl))"
  by pat_completeness auto
termination
  by (relation "measure (\<lambda>(p, s, cl). length s)")
     (auto intro: getcomment_shorter getdomainliteral_shorter getatom_shorter)

definition getdomain :: "string \<Rightarrow> string list \<Rightarrow> string \<times> string \<times> string list" where
  "getdomain s cl = getdomain_loop [] s cl"

lemma gotonext_loop_le: "length (fst (snd (gotonext_loop w s cl))) \<le> length s"
proof (induction w s cl rule: gotonext_loop.induct)
  case (2 wslist c s cl)
  show ?case
  proof (cases "getcomment (c # s)")
    case (Pair comment s')
    then show ?thesis
      using 2 getcomment_shorter[of comment s' s]
      by (auto simp: le_SucI simp del: set_append)
  qed
qed simp

lemma gotonext_le: "(ws, r, cl') = gotonext s cl \<Longrightarrow> length r \<le> length s"
  using gotonext_loop_le[of "[]" s cl] by (simp add: gotonext_def) (metis fst_conv snd_conv)

lemma getdomain_loop_le: "length (fst (snd (getdomain_loop sd s cl))) \<le> length s"
proof (induction sd s cl rule: getdomain_loop.induct)
  case (2 sdlist c s cl)
  obtain comment s1 where c1: "getcomment (c # s) = (comment, s1)" by (cases "getcomment (c # s)")
  obtain dl s2 where c2: "getdomainliteral (c # s) = (dl, s2)" by (cases "getdomainliteral (c # s)")
  obtain a s3 where c3: "getatom atomends (c # s) = (a, s3)" by (cases "getatom atomends (c # s)")
  show ?case
    using 2 c1 c2 c3 getcomment_shorter[of comment s1 s] getdomainliteral_shorter[of dl s2 s]
      getatom_shorter[of c atomends a s3 s]
    by (auto simp: le_SucI)
qed simp

lemma getdomain_le: "(d, r, cl') = getdomain s cl \<Longrightarrow> length r \<le> length s"
  using getdomain_loop_le[of "[]" s cl] by (simp add: getdomain_def) (metis fst_conv snd_conv)

lemma getphraselist_loop_le: "length (fst (snd (getphraselist_loop p s cl))) \<le> length s"
proof (induction p s cl rule: getphraselist_loop.induct)
  case (2 plist c s cl)
  obtain comment s1 where c1: "getcomment (c # s) = (comment, s1)" by (cases "getcomment (c # s)")
  obtain q s2 where c2: "getquote (c # s) = (q, s2)" by (cases "getquote (c # s)")
  obtain a s3 where c3: "getatom phraseends (c # s) = (a, s3)" by (cases "getatom phraseends (c # s)")
  show ?case
    using 2 c1 c2 c3 getcomment_shorter[of comment s1 s] getquote_shorter[of q s2 s]
      getatom_shorter[of c phraseends a s3 s]
    by (auto simp: le_SucI)
qed simp

lemma getphraselist_le: "(p, r, cl') = getphraselist s cl \<Longrightarrow> length r \<le> length s"
  using getphraselist_loop_le[of "[]" s cl] by (simp add: getphraselist_def) (metis fst_conv snd_conv)

subsection \<open>Address specifications and route addresses\<close>

text \<open>str.strip() of a str removes white space; the test not x.strip() asks whether
  every character of x is white space.\<close>

definition isspace :: "char \<Rightarrow> bool" where
  "isspace c = (c \<in> set [CHR 0x09, CHR 0x0A, CHR 0x0B, CHR 0x0C, CHR 0x0D,
                           CHR 0x1C, CHR 0x1D, CHR 0x1E, CHR 0x1F, CHR 0x20, CHR 0x85, CHR 0xA0])"

definition strip_is_empty :: "string \<Rightarrow> bool" where
  "strip_is_empty x = list_all isspace x"

definition quote :: "string \<Rightarrow> string" where
  "quote str = concat (map (\<lambda>c. if c = CHR 0x5C then [CHR 0x5C, CHR 0x5C]
                                   else if c = CHR 0x22 then [CHR 0x5C, CHR 0x22] else [c]) str)"

definition pop_blank :: "string list \<Rightarrow> string list" where
  "pop_blank aslist = (if aslist \<noteq> [] \<and> strip_is_empty (last aslist) then butlast aslist else aslist)"

lemma gotonext_shorter: "(ws, r, cl') = gotonext s cl \<Longrightarrow> length r < Suc (length s)"
  using gotonext_le[of ws r cl' s cl] by simp

lemma quote_gotonext_shorter:
  "(q, s1) = getquote (CHR 0x22 # s) \<Longrightarrow> (ws, r, cl') = gotonext s1 cl \<Longrightarrow> length r < Suc (length s)"
  using getquote_shorter[of q s1 s] gotonext_le[of ws r cl' s1 cl] by simp

lemma atom_gotonext_shorter:
  "c \<notin> set ends \<Longrightarrow> (a, s1) = getatom ends (c # s) \<Longrightarrow> (ws, r, cl') = gotonext s1 cl
   \<Longrightarrow> length r < Suc (length s)"
  using getatom_shorter[of c ends a s1 s] gotonext_le[of ws r cl' s1 cl] by simp

text \<open>\<open>getaddrspec\<close> reads \<open>local-part@domain\<close>. It returns the local part alone when no \<open>@\<close>
  follows it, and the empty string when an \<open>@\<close> follows and the domain after it is empty.\<close>

function getaddrspec_loop :: "string list \<Rightarrow> string \<Rightarrow> string list \<Rightarrow> string list \<times> string \<times> string list" where
  "getaddrspec_loop aslist [] cl = (aslist, [], cl)"
| "getaddrspec_loop aslist (c # s) cl =
     (if c = CHR ''.'' then
        (case gotonext s cl of
           (ws, s', cl') \<Rightarrow> getaddrspec_loop (pop_blank aslist @ [[CHR ''.'']]) s' cl')
      else if c = CHR 0x22 then
        (case getquote (c # s) of
           (q, s1) \<Rightarrow>
             (case gotonext s1 cl of
                (ws, s', cl') \<Rightarrow>
                  getaddrspec_loop
                    ((aslist @ [[CHR 0x22] @ quote q @ [CHR 0x22]]) @ (if ws \<noteq> [] then [ws] else []))
                    s' cl'))
      else if c \<in> set atomends then (pop_blank aslist, c # s, cl)
      else
        (case getatom atomends (c # s) of
           (a, s1) \<Rightarrow>
             (case gotonext s1 cl of
                (ws, s', cl') \<Rightarrow>
                  getaddrspec_loop ((aslist @ [a]) @ (if ws \<noteq> [] then [ws] else [])) s' cl')))"
  by pat_completeness auto
termination
  by (relation "measure (\<lambda>(a, s, cl). length s)")
     (auto intro: gotonext_shorter quote_gotonext_shorter atom_gotonext_shorter)

definition getaddrspec :: "string \<Rightarrow> string list \<Rightarrow> string \<times> string \<times> string list" where
  "getaddrspec s cl =
     (case gotonext s cl of
        (ws0, s0, cl0) \<Rightarrow>
          (case getaddrspec_loop [] s0 cl0 of
             (aslist, s1, cl1) \<Rightarrow>
               (case s1 of
                  [] \<Rightarrow> (concat aslist, s1, cl1)
                | c # r \<Rightarrow>
                    if c \<noteq> CHR ''@'' then (concat aslist, s1, cl1)
                    else
                      (case gotonext r cl1 of
                         (ws2, s2, cl2) \<Rightarrow>
                           (case getdomain s2 cl2 of
                              (domain, s3, cl3) \<Rightarrow>
                                if domain = [] then ([], s3, cl3)
                                else (concat (aslist @ [[CHR ''@'']]) @ domain, s3, cl3))))))"

text \<open>\<open>getrouteaddr\<close> reads an address in angle brackets, skipping a route. It is called with
  \<open>field[pos]\<close> equal to \<open><\<close>.\<close>

function getrouteaddr_loop :: "bool \<Rightarrow> string \<Rightarrow> string \<Rightarrow> string list \<Rightarrow> string \<times> string \<times> string list" where
  "getrouteaddr_loop expectroute adlist [] cl = (adlist, [], cl)"
| "getrouteaddr_loop expectroute adlist (c # s) cl =
     (if expectroute then
        (case getdomain (c # s) cl of
           (d, s1, cl1) \<Rightarrow>
             (case gotonext s1 cl1 of (ws, s2, cl2) \<Rightarrow> getrouteaddr_loop False adlist s2 cl2))
      else if c = CHR ''>'' then (adlist, s, cl)
      else if c = CHR ''@'' then
        (case gotonext s cl of (ws, s2, cl2) \<Rightarrow> getrouteaddr_loop True adlist s2 cl2)
      else if c = CHR '':'' then
        (case gotonext s cl of (ws, s2, cl2) \<Rightarrow> getrouteaddr_loop False adlist s2 cl2)
      else
        (case getaddrspec (c # s) cl of (a, s1, cl1) \<Rightarrow> (a, tl s1, cl1)))"
  by pat_completeness auto
termination
  by (relation "measure (\<lambda>(e, a, s, cl). 2 * length s + (if e then 1 else 0))")
     (auto dest!: gotonext_le getdomain_le)

definition getrouteaddr :: "string \<Rightarrow> string list \<Rightarrow> string \<times> string \<times> string list" where
  "getrouteaddr s cl =
     (case s of
        [] \<Rightarrow> ([], [], cl)
      | c # r \<Rightarrow>
          if c \<noteq> CHR ''<'' then ([], s, cl)
          else (case gotonext r cl of (ws, s1, cl1) \<Rightarrow> getrouteaddr_loop False [] s1 cl1))"

lemma gotonext_loop_head:
  "gotonext_loop w s cl = (ws, c # r, cl') \<Longrightarrow> c \<notin> set (LWS @ [CHR 0x0A, CHR 0x0D]) \<and> c \<noteq> CHR ''(''"
proof (induction w s cl rule: gotonext_loop.induct)
  case (2 wslist c0 s cl)
  obtain comment s1 where c1: "getcomment (c0 # s) = (comment, s1)" by (cases "getcomment (c0 # s)")
  show ?case
    using 2 c1 by (auto simp del: set_append split: if_splits)
qed simp

lemma gotonext_head:
  "gotonext s cl = (ws, c # r, cl') \<Longrightarrow> c \<notin> set (LWS @ [CHR 0x0A, CHR 0x0D]) \<and> c \<noteq> CHR ''(''"
  unfolding gotonext_def by (rule gotonext_loop_head)

lemma gotonext_id:
  "c \<notin> set (LWS @ [CHR 0x0A, CHR 0x0D]) \<Longrightarrow> c \<noteq> CHR ''('' \<Longrightarrow> gotonext (c # s) cl = ([], c # s, cl)"
  by (simp add: gotonext_def del: set_append)

lemma getaddrspec_loop_le: "length (fst (snd (getaddrspec_loop a s cl))) \<le> length s"
proof (induction a s cl rule: getaddrspec_loop.induct)
  case (2 aslist c s cl)
  obtain ws1 r1 cl1 where g1: "gotonext s cl = (ws1, r1, cl1)" by (cases "gotonext s cl")
  obtain q s2 where g2: "getquote (c # s) = (q, s2)" by (cases "getquote (c # s)")
  obtain ws2 r2 cl2 where g3: "gotonext s2 cl = (ws2, r2, cl2)" by (cases "gotonext s2 cl")
  obtain a s3 where g4: "getatom atomends (c # s) = (a, s3)" by (cases "getatom atomends (c # s)")
  obtain ws3 r3 cl3 where g5: "gotonext s3 cl = (ws3, r3, cl3)" by (cases "gotonext s3 cl")
  show ?case
  proof (cases "c = CHR ''.''")
    case True
    then show ?thesis using 2(1)[OF True g1[symmetric] refl] g1 gotonext_le[OF g1[symmetric]] by simp
  next
    case F1: False
    show ?thesis
    proof (cases "c = CHR 0x22")
      case True
      then show ?thesis
        using 2(2)[OF F1 True g2[symmetric] g3[symmetric] refl] g2 g3 F1
          quote_gotonext_shorter[of q s2 s ws2 r2 cl2 cl]
        by simp
    next
      case F2: False
      show ?thesis
      proof (cases "c \<in> set atomends")
        case True
        then show ?thesis using F1 F2 by simp
      next
        case F3: False
        then show ?thesis
          using 2(3)[OF F1 F2 F3 g4[symmetric] g5[symmetric] refl] g4 g5 F1 F2
            atom_gotonext_shorter[of c atomends a s3 s ws3 r3 cl3 cl]
          by simp
      qed
    qed
  qed
qed simp

lemma getaddrspec_tail_le:
  "length (fst (snd (case s1 of
                  [] \<Rightarrow> (concat aslist, s1, cl1)
                | c # r \<Rightarrow>
                    if c \<noteq> CHR ''@'' then (concat aslist, s1, cl1)
                    else
                      (case gotonext r cl1 of
                         (ws2, s2, cl2) \<Rightarrow>
                           (case getdomain s2 cl2 of
                              (domain, s3, cl3) \<Rightarrow>
                                if domain = [] then ([], s3, cl3)
                                else (concat (aslist @ [[CHR ''@'']]) @ domain, s3, cl3)))))) \<le> length s1"
proof (cases s1)
  case (Cons c r)
  obtain ws2 s2 cl2 where g1: "gotonext r cl1 = (ws2, s2, cl2)" by (cases "gotonext r cl1")
  obtain d s3 cl3 where g2: "getdomain s2 cl2 = (d, s3, cl3)" by (cases "getdomain s2 cl2")
  show ?thesis
    using Cons g1 g2 gotonext_le[OF g1[symmetric]] getdomain_le[OF g2[symmetric]] by simp
qed simp

lemma getaddrspec_le: "length (fst (snd (getaddrspec s cl))) \<le> length s"
proof -
  obtain ws0 s0 cl0 where g0: "gotonext s cl = (ws0, s0, cl0)" by (cases "gotonext s cl")
  obtain aslist s1 cl1 where g1: "getaddrspec_loop [] s0 cl0 = (aslist, s1, cl1)"
    by (cases "getaddrspec_loop [] s0 cl0")
  have "length s1 \<le> length s0" using getaddrspec_loop_le[of "[]" s0 cl0] g1 by simp
  moreover have "length s0 \<le> length s" using gotonext_le[OF g0[symmetric]] .
  ultimately show ?thesis
    unfolding getaddrspec_def g0 g1 prod.case
    using getaddrspec_tail_le[of aslist s1 cl1] by linarith
qed

lemma getaddrspec_progress:
  assumes "c \<notin> set (LWS @ [CHR 0x0A, CHR 0x0D])" "c \<noteq> CHR ''(''"
    and "c = CHR ''.'' \<or> c = CHR 0x22 \<or> c = CHR ''@'' \<or> c \<notin> set atomends"
  shows "length (fst (snd (getaddrspec (c # s) cl))) \<le> length s"
proof -
  obtain aslist s1 cl1 where g1: "getaddrspec_loop [] (c # s) cl = (aslist, s1, cl1)"
    by (cases "getaddrspec_loop [] (c # s) cl")
  have tail: "length (fst (snd (getaddrspec (c # s) cl))) \<le> length s1"
    unfolding getaddrspec_def gotonext_id[OF assms(1,2)] g1 prod.case
    by (rule getaddrspec_tail_le)
  obtain ws1 r1 cl1' where h1: "gotonext s cl = (ws1, r1, cl1')" by (cases "gotonext s cl")
  obtain q s2 where h2: "getquote (c # s) = (q, s2)" by (cases "getquote (c # s)")
  obtain ws2 r2 cl2 where h3: "gotonext s2 cl = (ws2, r2, cl2)" by (cases "gotonext s2 cl")
  obtain a s3 where h4: "getatom atomends (c # s) = (a, s3)" by (cases "getatom atomends (c # s)")
  obtain ws3 r3 cl3 where h5: "gotonext s3 cl = (ws3, r3, cl3)" by (cases "gotonext s3 cl")
  consider (dot) "c = CHR ''.''" | (quo) "c \<noteq> CHR ''.''" "c = CHR 0x22"
    | (at) "c = CHR ''@''" | (atom) "c \<noteq> CHR ''.''" "c \<noteq> CHR 0x22" "c \<notin> set atomends"
    using assms(3) by blast
  then show ?thesis
  proof cases
    case dot
    have "length s1 \<le> length r1"
      using g1 dot h1 getaddrspec_loop_le[of "pop_blank [] @ [[CHR ''.'']]" r1 cl1'] by simp
    then show ?thesis using tail gotonext_le[OF h1[symmetric]] by linarith
  next
    case quo
    have "length s1 \<le> length r2"
      using g1 quo h2 h3
        getaddrspec_loop_le[of "([] @ [[CHR 0x22] @ quote q @ [CHR 0x22]]) @ (if ws2 \<noteq> [] then [ws2] else [])" r2 cl2]
      by simp
    moreover have "length r2 < Suc (length s)"
      using quote_gotonext_shorter[of q s2 s ws2 r2 cl2 cl] h2 h3 quo by simp
    ultimately show ?thesis using tail by linarith
  next
    case at
    have s1: "s1 = c # s" using g1 at by (simp add: atomends_def specials_def)
    obtain ws4 s4 cl4 where k1: "gotonext s cl1 = (ws4, s4, cl4)" by (cases "gotonext s cl1")
    obtain d s5 cl5 where k2: "getdomain s4 cl4 = (d, s5, cl5)" by (cases "getdomain s4 cl4")
    have "g = getaddrspec (c # s) cl \<Longrightarrow> length (fst (snd g)) \<le> length s" for g
      unfolding getaddrspec_def gotonext_id[OF assms(1,2)] g1 prod.case s1
      using at k1 k2 gotonext_le[OF k1[symmetric]] getdomain_le[OF k2[symmetric]] by simp
    then show ?thesis by simp
  next
    case atom
    have "length s1 \<le> length r3"
      using g1 atom h4 h5
        getaddrspec_loop_le[of "([] @ [a]) @ (if ws3 \<noteq> [] then [ws3] else [])" r3 cl3]
      by simp
    moreover have "length r3 < Suc (length s)"
      using atom_gotonext_shorter[of c atomends a s3 s ws3 r3 cl3 cl] h4 h5 atom by simp
    ultimately show ?thesis using tail by linarith
  qed
qed

lemma getrouteaddr_loop_le: "length (fst (snd (getrouteaddr_loop e a s cl))) \<le> length s"
proof (induction e a s cl rule: getrouteaddr_loop.induct)
  case (2 expectroute adlist c s cl)
  obtain d s1 cl1 where g1: "getdomain (c # s) cl = (d, s1, cl1)" by (cases "getdomain (c # s) cl")
  obtain ws s2 cl2 where g2: "gotonext s1 cl1 = (ws, s2, cl2)" by (cases "gotonext s1 cl1")
  obtain ws' s3 cl3 where g3: "gotonext s cl = (ws', s3, cl3)" by (cases "gotonext s cl")
  obtain a s4 cl4 where g4: "getaddrspec (c # s) cl = (a, s4, cl4)" by (cases "getaddrspec (c # s) cl")
  show ?case
  proof (cases expectroute)
    case True
    then show ?thesis
      using 2(1)[OF True g1[symmetric] refl g2[symmetric] refl] g1 g2
        getdomain_le[OF g1[symmetric]] gotonext_le[OF g2[symmetric]] by simp
  next
    case False
    then show ?thesis
      using 2(2)[OF False _ _ g3[symmetric] refl] 2(3)[OF False _ _ _ g3[symmetric] refl] g3 g4
        gotonext_le[OF g3[symmetric]] getaddrspec_le[of "c # s" cl]
      by (auto simp: le_SucI)
  qed
qed simp

lemma getrouteaddr_progress:
  "length (fst (snd (getrouteaddr (CHR ''<'' # r) cl))) \<le> length r"
proof -
  obtain ws s1 cl1 where g: "gotonext r cl = (ws, s1, cl1)" by (cases "gotonext r cl")
  show ?thesis
    using g gotonext_le[OF g[symmetric]] getrouteaddr_loop_le[of False "[]" s1 cl1]
    by (simp add: getrouteaddr_def)
qed

lemma getphraselist_stuck:
  "c \<in> set phraseends \<Longrightarrow> c \<notin> set FWS \<Longrightarrow> c \<noteq> CHR 0x22 \<Longrightarrow> c \<noteq> CHR ''(''
   \<Longrightarrow> getphraselist (c # s) cl = ([], c # s, cl)"
  by (simp add: getphraselist_def)

lemma getphraselist_same:
  assumes "getphraselist s cl = (pl, r, cl')" "length r = length s"
  shows "pl = [] \<and> r = s \<and> (s = [] \<or> hd s \<in> set phraseends)"
proof (cases s)
  case Nil
  then show ?thesis using assms by (simp add: getphraselist_def)
next
  case (Cons c t)
  obtain q s2 where c2: "getquote (c # t) = (q, s2)" by (cases "getquote (c # t)")
  obtain comment s1 where c1: "getcomment (c # t) = (comment, s1)" by (cases "getcomment (c # t)")
  obtain a s3 where c3: "getatom phraseends (c # t) = (a, s3)" by (cases "getatom phraseends (c # t)")
  have le: "length (fst (snd (getphraselist_loop p x y))) \<le> length x" for p x y
    by (rule getphraselist_loop_le)
  show ?thesis
    using assms Cons c1 c2 c3 le[of "[]" t cl] le[of "[] @ [q]" s2 cl] le[of "[]" s1 "cl @ [comment]"]
      le[of "[] @ [a]" s3 cl]
      getquote_shorter[of q s2 t] getcomment_shorter[of comment s1 t] getatom_shorter[of c phraseends a s3 t]
    by (auto simp: getphraselist_def split: if_splits)
qed

lemma getaddress_head_same:
  assumes g1: "gotonext s cl0 = (ws1, oldpos, oldcl)"
    and g2: "getphraselist oldpos oldcl = (plist, s2, cl2)"
    and g3: "gotonext s2 cl2 = (ws3, s3, cl3)"
  shows "length s3 \<le> length s"
    and "length oldpos \<le> length s"
    and "length s3 \<le> length oldpos"
    and "length s3 = length s \<Longrightarrow> s3 \<noteq> [] \<Longrightarrow> plist = [] \<and> hd s3 \<in> set specials"
proof -
  have a: "length oldpos \<le> length s" using gotonext_le[OF g1[symmetric]] .
  have b: "length s2 \<le> length oldpos" using getphraselist_le[OF g2[symmetric]] .
  have c: "length s3 \<le> length s2" using gotonext_le[OF g3[symmetric]] .
  show "length s3 \<le> length s" "length oldpos \<le> length s" "length s3 \<le> length oldpos"
    using a b c by linarith+
  assume eq: "length s3 = length s" and ne: "s3 \<noteq> []"
  have e2: "length s2 = length oldpos" and e3: "length s3 = length s2" using eq a b c by linarith+
  have same: "plist = [] \<and> s2 = oldpos \<and> (oldpos = [] \<or> hd oldpos \<in> set phraseends)"
    using getphraselist_same[OF g2 e2] .
  obtain c0 r0 where s3: "s3 = c0 # r0" using ne by (cases s3) auto
  have hd3: "c0 \<notin> set (LWS @ [CHR 0x0A, CHR 0x0D]) \<and> c0 \<noteq> CHR ''(''"
    using gotonext_head[of s2 cl2 ws3 c0 r0 cl3] g3 s3 by simp
  have "length (fst (snd (gotonext_loop [] x y))) \<le> length x" for x y
    by (rule gotonext_loop_le)
  have s2ne: "s2 \<noteq> []" using e3 ne by auto
  then obtain c2 r2 where s2: "s2 = c2 # r2" by (cases s2) auto
  have "s3 = s2"
  proof (cases "c2 \<in> set (LWS @ [CHR 0x0A, CHR 0x0D])")
    case True
    then have "length s3 \<le> length r2"
      using g3 s2 gotonext_loop_le[of "if c2 \<notin> set [CHR 0x0A, CHR 0x0D] then [] @ [[c2]] else []" r2 cl2]
      by (simp add: gotonext_def del: set_append)
    then show ?thesis using e3 s2 by simp
  next
    case F: False
    show ?thesis
    proof (cases "c2 = CHR ''(''")
      case True
      obtain comment s1 where c1: "getcomment (c2 # r2) = (comment, s1)" by (cases "getcomment (c2 # r2)")
      have "length s3 \<le> length s1"
        using g3 s2 F True c1 gotonext_loop_le[of "[]" s1 "cl2 @ [comment]"]
        by (simp add: gotonext_def del: set_append)
      then show ?thesis using getcomment_shorter[of comment s1 r2] c1 True e3 s2 by simp
    next
      case False
      then show ?thesis using g3 s2 F by (simp add: gotonext_def del: set_append)
    qed
  qed
  then have "hd s3 \<in> set phraseends" using same s2ne by auto
  then have "hd s3 \<in> set specials"
    using hd3 s3 by (auto simp: phraseends_def atomends_def LWS_def CR_def)
  then show "plist = [] \<and> hd s3 \<in> set specials" using same by simp
qed

lemma getaddress_addrspec_progress:
  assumes g1: "gotonext s cl0 = (ws1, oldpos, oldcl)"
    and g2: "getphraselist oldpos oldcl = (plist, s2, cl2)"
    and g3: "gotonext s2 cl2 = (ws3, s3, cl3)"
    and ne: "s3 \<noteq> []" and hd: "hd s3 \<in> set ''.@''"
  shows "length (fst (snd (getaddrspec oldpos cl3))) < length oldpos"
proof -
  have le: "length s3 \<le> length oldpos" using getaddress_head_same(3)[OF g1 g2 g3] .
  then obtain c0 t where op: "oldpos = c0 # t" using ne by (cases oldpos) auto
  have h0: "c0 \<notin> set (LWS @ [CHR 0x0A, CHR 0x0D])" "c0 \<noteq> CHR ''(''"
    using gotonext_head[of s cl0 ws1 c0 t oldcl] g1 op by simp_all
  show ?thesis
  proof (cases "c0 = CHR ''.'' \<or> c0 = CHR 0x22 \<or> c0 = CHR ''@'' \<or> c0 \<notin> set atomends")
    case True
    then show ?thesis using getaddrspec_progress[OF h0 True, of t cl3] op by simp
  next
    case False
    then have pe: "c0 \<in> set phraseends" by (simp add: phraseends_def)
    have nf: "c0 \<notin> set FWS" using h0(1) by (auto simp: FWS_def CR_def)
    have "getphraselist (c0 # t) oldcl = ([], c0 # t, oldcl)"
      using getphraselist_stuck[OF pe nf] False h0(2) by simp
    then have "s2 = c0 # t" "cl2 = oldcl" using g2 op by simp_all
    then have "s3 = c0 # t" using g3 gotonext_id[OF h0, of t oldcl] by simp
    then show ?thesis using hd False by simp
  qed
qed

subsection \<open>Addresses and address lists\<close>

text \<open>\<open>getaddress\<close> reads one address, or the addresses of a group, and returns a list of pairs
  of a real name and an address. Where the field ends after a phrase, the first word of the
  phrase is returned as the address: this is how a quoted string becomes an address. The
  variable \<open>oldcl\<close> of the method is an alias of the comment list, so restoring it changes
  nothing: \<open>getaddrspec\<close> is called with the comment list as it stands. The group branch of
  the method is the second function, \<open>getaddress_group\<close>, which calls \<open>getaddress\<close> again.\<close>

fun join_str :: "string \<Rightarrow> string list \<Rightarrow> string" where
  "join_str sep [] = []"
| "join_str sep [x] = x"
| "join_str sep (x # y # ys) = x @ sep @ join_str sep (y # ys)"

function getaddress :: "string \<Rightarrow> string list \<Rightarrow> (string \<times> string) list \<times> string \<times> string list"
  and getaddress_group ::
    "(string \<times> string) list \<Rightarrow> string \<Rightarrow> string list \<Rightarrow> (string \<times> string) list \<times> string \<times> string list"
where
  "getaddress s cl =
     (case gotonext s [] of
        (ws1, oldpos, oldcl) \<Rightarrow>
     (case getphraselist oldpos oldcl of
        (plist, s2, cl2) \<Rightarrow>
     (case gotonext s2 cl2 of
        (ws3, s3, cl3) \<Rightarrow>
     (case
        (if s3 = [] then
           ((if plist \<noteq> [] then [(join_str '' '' cl3, hd plist)] else []), s3, cl3)
         else if hd s3 \<in> set ''.@'' then
           (case getaddrspec oldpos cl3 of
              (addrspec, s4, cl4) \<Rightarrow> ([(join_str '' '' cl4, addrspec)], s4, cl4))
         else if hd s3 = CHR '':'' then getaddress_group [] (tl s3) cl3
         else if hd s3 = CHR ''<'' then
           (case getrouteaddr s3 cl3 of
              (routeaddr, s4, cl4) \<Rightarrow>
                ((if cl4 \<noteq> [] then
                    [(join_str '' '' plist @ '' ('' @ join_str '' '' cl4 @ '')'', routeaddr)]
                  else [(join_str '' '' plist, routeaddr)]), s4, cl4))
         else if plist \<noteq> [] then ([(join_str '' '' cl3, hd plist)], s3, cl3)
         else if hd s3 \<in> set specials then ([], tl s3, cl3)
         else ([], s3, cl3))
      of (returnlist, s5, cl5) \<Rightarrow>
     (case gotonext s5 cl5 of
        (ws6, s6, cl6) \<Rightarrow>
          (returnlist, (if s6 \<noteq> [] \<and> hd s6 = CHR '','' then tl s6 else s6), cl6))))))"
| "getaddress_group returnlist s cl =
     (if s = [] then (returnlist, s, cl)
      else
        (case gotonext s cl of
           (ws, s1, cl1) \<Rightarrow>
             if s1 \<noteq> [] \<and> hd s1 = CHR '';'' then (returnlist, tl s1, cl1)
             else
               (case getaddress s1 cl1 of
                  (ad, s2, cl2) \<Rightarrow> getaddress_group (returnlist @ ad) s2 cl2)))"
  by pat_completeness auto

lemma getaddress_progress_dom:
  "getaddress_getaddress_group_dom (Inl (s, cl)) \<Longrightarrow>
     length (fst (snd (getaddress s cl))) \<le> length s \<and>
     (s \<noteq> [] \<longrightarrow> length (fst (snd (getaddress s cl))) < length s)"
  "getaddress_getaddress_group_dom (Inr (rl, s, cl)) \<Longrightarrow>
     length (fst (snd (getaddress_group rl s cl))) \<le> length s"
proof (induction s cl and rl s cl rule: getaddress_getaddress_group.pinduct)
  case (1 s cl)
  obtain ws1 oldpos oldcl where g1: "gotonext s [] = (ws1, oldpos, oldcl)" by (cases "gotonext s []")
  obtain plist s2 cl2 where g2: "getphraselist oldpos oldcl = (plist, s2, cl2)"
    by (cases "getphraselist oldpos oldcl")
  obtain ws3 s3 cl3 where g3: "gotonext s2 cl2 = (ws3, s3, cl3)" by (cases "gotonext s2 cl2")
  note hs = getaddress_head_same[OF g1 g2 g3]
  define br where "br =
        (if s3 = [] then
           ((if plist \<noteq> [] then [(join_str '' '' cl3, hd plist)] else []), s3, cl3)
         else if hd s3 \<in> set ''.@'' then
           (case getaddrspec oldpos cl3 of
              (addrspec, s4, cl4) \<Rightarrow> ([(join_str '' '' cl4, addrspec)], s4, cl4))
         else if hd s3 = CHR '':'' then getaddress_group [] (tl s3) cl3
         else if hd s3 = CHR ''<'' then
           (case getrouteaddr s3 cl3 of
              (routeaddr, s4, cl4) \<Rightarrow>
                ((if cl4 \<noteq> [] then
                    [(join_str '' '' plist @ '' ('' @ join_str '' '' cl4 @ '')'', routeaddr)]
                  else [(join_str '' '' plist, routeaddr)]), s4, cl4))
         else if plist \<noteq> [] then ([(join_str '' '' cl3, hd plist)], s3, cl3)
         else if hd s3 \<in> set specials then ([], tl s3, cl3)
         else ([], s3, cl3))"
  obtain returnlist s5 cl5 where br: "br = (returnlist, s5, cl5)" by (cases br)
  obtain ws6 s6 cl6 where g6: "gotonext s5 cl5 = (ws6, s6, cl6)" by (cases "gotonext s5 cl5")
  have res: "fst (snd (getaddress s cl)) = (if s6 \<noteq> [] \<and> hd s6 = CHR '','' then tl s6 else s6)"
    using getaddress.psimps[OF 1(1)] g1 g2 g3 br g6 unfolding br_def by simp
  have l6: "length s6 \<le> length s5" using gotonext_le[OF g6[symmetric]] .
  have l5: "length s5 \<le> length s \<and> (s \<noteq> [] \<longrightarrow> length s5 < length s)"
  proof (cases "s3 = []")
    case True
    then show ?thesis using br unfolding br_def by (cases s) auto
  next
    case ne: False
    show ?thesis
    proof (cases "hd s3 \<in> set ''.@''")
      case True
      obtain a s4 cl4 where g4: "getaddrspec oldpos cl3 = (a, s4, cl4)" by (cases "getaddrspec oldpos cl3")
      have "length s4 < length oldpos"
        using getaddress_addrspec_progress[OF g1 g2 g3 ne True] g4 by simp
      moreover have "s5 = s4" using br ne True g4 unfolding br_def by simp
      ultimately show ?thesis using hs by simp
    next
      case n1: False
      show ?thesis
      proof (cases "hd s3 = CHR '':''")
        case True
        have "length (fst (snd (getaddress_group [] (tl s3) cl3))) \<le> length (tl s3)"
          using 1(2)[OF g1[symmetric] refl g2[symmetric] refl g3[symmetric] refl ne n1 True] .
        moreover have "s5 = fst (snd (getaddress_group [] (tl s3) cl3))"
          using br ne n1 True unfolding br_def by simp
        ultimately show ?thesis using hs ne by (cases s3) auto
      next
        case n2: False
        show ?thesis
        proof (cases "hd s3 = CHR ''<''")
          case True
          obtain a s4 cl4 where g4: "getrouteaddr s3 cl3 = (a, s4, cl4)" by (cases "getrouteaddr s3 cl3")
          have "length s4 \<le> length (tl s3)"
            using getrouteaddr_progress[of "tl s3" cl3] g4 ne True by (cases s3) auto
          moreover have "s5 = s4" using br ne n1 n2 True g4 unfolding br_def by simp
          ultimately show ?thesis using hs ne by (cases s3) auto
        next
          case n3: False
          have "length s3 < length s \<or> (plist = [] \<and> hd s3 \<in> set specials)"
            using hs(1) hs(4) ne by linarith
          then show ?thesis
            using br ne n1 n2 n3 hs(1) unfolding br_def
            by (cases s3) (auto split: if_splits)
        qed
      qed
    qed
  qed
  show ?case using res l5 l6 hs by (auto simp: length_tl)
next
  case (2 returnlist s cl)
  show ?case
  proof (cases "s = []")
    case True
    then show ?thesis using getaddress_group.psimps[OF 2(1)] by simp
  next
    case ne: False
    obtain ws s1 cl1 where g1: "gotonext s cl = (ws, s1, cl1)" by (cases "gotonext s cl")
    have l1: "length s1 \<le> length s" using gotonext_le[OF g1[symmetric]] .
    show ?thesis
    proof (cases "s1 \<noteq> [] \<and> hd s1 = CHR '';''")
      case True
      then have "fst (snd (getaddress_group returnlist s cl)) = tl s1"
        using getaddress_group.psimps[OF 2(1)] ne g1 by simp
      then show ?thesis using l1 by (simp add: length_tl)
    next
      case False
      obtain ad s2 cl2 where g2: "getaddress s1 cl1 = (ad, s2, cl2)" by (cases "getaddress s1 cl1")
      have a: "length s2 \<le> length s1"
        using 2(2)[OF ne g1[symmetric] refl False] g2 by simp
      have b: "length (fst (snd (getaddress_group (returnlist @ ad) s2 cl2))) \<le> length s2"
        using 2(3)[OF ne g1[symmetric] refl False g2[symmetric] refl] .
      have "fst (snd (getaddress_group returnlist s cl)) = fst (snd (getaddress_group (returnlist @ ad) s2 cl2))"
        using getaddress_group.psimps[OF 2(1)] ne g1 g2 False by simp
      then show ?thesis using a b l1 by simp
    qed
  qed
qed

lemma getaddress_step_shorter:
  assumes "getaddress_getaddress_group_dom (Inl (s1, cl1))" "(ad, s2, cl2) = getaddress s1 cl1"
    and "(ws, s1, cl1') = gotonext s cl" "s \<noteq> []"
  shows "length s2 < length s"
proof -
  have l1: "length s1 \<le> length s" using gotonext_le[OF assms(3)] .
  have "length s2 \<le> length s1 \<and> (s1 \<noteq> [] \<longrightarrow> length s2 < length s1)"
    using getaddress_progress_dom(1)[OF assms(1)] assms(2)[symmetric] by simp
  then show ?thesis using l1 assms(4) by (cases s1; cases s) auto
qed

lemma getaddress_total: "All getaddress_getaddress_group_dom"
  apply (relation "measure (\<lambda>x. case x of Inl (s, cl) \<Rightarrow> 2 * length s
                                      | Inr (rl, s, cl) \<Rightarrow> 2 * length s + 1)")
     apply simp_all
  subgoal for s x y xa ya xb yb xc yc xd yd xe ye
    using getaddress_head_same(1)[of s "[]" x xa ya xb xc yc xd xe ye]
    by (cases xe) auto
  subgoal for s cl x y xa ya
    using gotonext_le[of x xa ya s cl] by auto
  subgoal for s cl x y xa ya xb yb xc yc
    using getaddress_step_shorter[of xa ya xb xc yc x ya s cl] by auto
  done

termination getaddress
  by (rule getaddress_total)

lemma getaddress_progress:
  "length (fst (snd (getaddress s cl))) \<le> length s"
  "s \<noteq> [] \<Longrightarrow> length (fst (snd (getaddress s cl))) < length s"
  using getaddress_progress_dom(1)[OF getaddress_total[THEN spec], of s cl] by simp_all

lemma getaddress_shorter:
  "s \<noteq> [] \<Longrightarrow> (ad, s', cl') = getaddress s cl \<Longrightarrow> length s' < length s"
  using getaddress_progress(2)[of s cl] by (metis fst_conv snd_conv)

text \<open>\<open>getaddrlist\<close> reads addresses until the field is used up; an address that yields nothing
  contributes a pair of empty strings.\<close>

function getaddrlist_loop ::
  "(string \<times> string) list \<Rightarrow> string \<Rightarrow> string list \<Rightarrow> (string \<times> string) list \<times> string \<times> string list" where
  "getaddrlist_loop result s cl =
     (if s = [] then (result, s, cl)
      else
        (case getaddress s cl of
           (ad, s', cl') \<Rightarrow>
             getaddrlist_loop (if ad \<noteq> [] then result @ ad else result @ [([], [])]) s' cl'))"
  by pat_completeness auto

termination
  by (relation "measure (\<lambda>(r, s, cl). length s)") (auto intro: getaddress_shorter)

text \<open>AddressList.__init__\<close>

definition addresslist :: "string \<Rightarrow> (string \<times> string) list" where
  "addresslist field = (if field \<noteq> [] then fst (getaddrlist_loop [] field []) else [])"

subsection \<open>The function parseaddr\<close>

text \<open>In strict mode \<open>parseaddr\<close> replaces a field whose parentheses are unbalanced outside
  quoted strings by a field that parses to nothing, parses the field, blanks a parsed
  address that contains \<open>[\<close>, and returns the pair of empty strings unless exactly one
  address was parsed. \<open>slice addr a b\<close> is \<open>addr[a:b]\<close>.\<close>

fun iter_escaped_chars_loop :: "nat \<Rightarrow> bool \<Rightarrow> string \<Rightarrow> (nat \<times> string) list" where
  "iter_escaped_chars_loop pos escape [] = (if escape then [(pos - 1, [CHR 0x5C])] else [])"
| "iter_escaped_chars_loop pos escape (ch # addr) =
     (if escape then (pos, [CHR 0x5C, ch]) # iter_escaped_chars_loop (Suc pos) False addr
      else if ch = CHR 0x5C then iter_escaped_chars_loop (Suc pos) True addr
      else (pos, [ch]) # iter_escaped_chars_loop (Suc pos) False addr)"

definition iter_escaped_chars :: "string \<Rightarrow> (nat \<times> string) list" where
  "iter_escaped_chars addr = iter_escaped_chars_loop 0 False addr"

definition slice :: "string \<Rightarrow> nat \<Rightarrow> nat \<Rightarrow> string" where
  "slice addr a b = take (b - a) (drop a addr)"

fun strip_quoted_realnames_loop ::
  "string \<Rightarrow> nat \<Rightarrow> nat option \<Rightarrow> string list \<Rightarrow> (nat \<times> string) list \<Rightarrow> nat \<times> string list" where
  "strip_quoted_realnames_loop addr start open_pos result [] = (start, result)"
| "strip_quoted_realnames_loop addr start open_pos result ((pos, ch) # rest) =
     (if ch = [CHR 0x22] then
        (case open_pos of
           None \<Rightarrow> strip_quoted_realnames_loop addr start (Some pos) result rest
         | Some opn \<Rightarrow>
             strip_quoted_realnames_loop addr (pos + 1) None
               (if start \<noteq> opn then result @ [slice addr start opn] else result) rest)
      else strip_quoted_realnames_loop addr start open_pos result rest)"

definition strip_quoted_realnames :: "string \<Rightarrow> string" where
  "strip_quoted_realnames addr =
     (if CHR 0x22 \<notin> set addr then addr
      else
        (case strip_quoted_realnames_loop addr 0 None [] (iter_escaped_chars addr) of
           (start, result) \<Rightarrow>
             concat (if start < length addr then result @ [drop start addr] else result)))"

fun check_parenthesis_loop :: "int \<Rightarrow> (nat \<times> string) list \<Rightarrow> bool" where
  "check_parenthesis_loop opens [] = (opens = 0)"
| "check_parenthesis_loop opens ((pos, ch) # rest) =
     (if ch = [CHR ''(''] then check_parenthesis_loop (opens + 1) rest
      else if ch = [CHR '')''] then
        (if opens - 1 < 0 then False else check_parenthesis_loop (opens - 1) rest)
      else check_parenthesis_loop opens rest)"

definition check_parenthesis :: "string \<Rightarrow> bool" where
  "check_parenthesis addr =
     check_parenthesis_loop 0 (iter_escaped_chars (strip_quoted_realnames addr))"

definition pre_parse_validation :: "string list \<Rightarrow> string list" where
  "pre_parse_validation email_header_fields =
     map (\<lambda>v. if \<not> check_parenthesis v
               then [CHR ''('', CHR 0x27, CHR 0x27, CHR '','', CHR '' '', CHR 0x27, CHR 0x27, CHR '')'']
               else v) email_header_fields"

definition post_parse_validation :: "(string \<times> string) list \<Rightarrow> (string \<times> string) list" where
  "post_parse_validation parsed_email_header_tuples =
     map (\<lambda>v. if CHR ''['' \<in> set (snd v) then ([], []) else v) parsed_email_header_tuples"

definition parseaddr :: "string \<Rightarrow> string \<times> string" where
  "parseaddr addr =
     (let addr' = hd (pre_parse_validation [addr]);
          addrs = post_parse_validation (addresslist addr')
      in if addrs = [] \<or> length addrs > 1 then ([], []) else hd addrs)"

subsection \<open>The validator of the program\<close>

text \<open>Lines 28-36 of \<open>src/main.py\<close>.\<close>

definition is_valid_email :: "string \<Rightarrow> bool" where
  "is_valid_email email = (CHR ''@'' \<in> set (snd (parseaddr email)))"

section \<open>Windows paths\<close>

text \<open>The program drives Outlook through COM and runs on Windows, where \<open>os.path\<close> is \<open>ntpath\<close>.
  \<open>os.path.join\<close>, \<open>os.path.splitext\<close> and \<open>os.path.basename\<close> are transcribed from
  CPython 3.11.10 (\<open>ntpath.py\<close>, \<open>genericpath.py\<close>), for \<open>str\<close> arguments. \<open>upper\<close> and \<open>lower\<close>
  are \<open>str.upper\<close> and \<open>str.lower\<close> on the code points of \<open>char\<close>; \<open>upper\<close> is only used to
  compare with a prefix made of ASCII characters, where the three code points that
  \<open>str.upper\<close> maps outside \<open>char\<close> make no difference.\<close>

definition sep :: char where "sep = CHR 0x5C"
definition altsep :: char where "altsep = CHR ''/''"
definition seps :: string where "seps = [CHR 0x5C, CHR ''/'']"

definition upper :: "char \<Rightarrow> char" where
  "upper c = (let n = (of_char c :: nat) in
     if (97 \<le> n \<and> n \<le> 122) \<or> (224 \<le> n \<and> n \<le> 254 \<and> n \<noteq> 247) then char_of (n - 32) else c)"

definition lower :: "char \<Rightarrow> char" where
  "lower c = (let n = (of_char c :: nat) in
     if (65 \<le> n \<and> n \<le> 90) \<or> (192 \<le> n \<and> n \<le> 222 \<and> n \<noteq> 215) then char_of (n + 32) else c)"

definition str_find :: "char \<Rightarrow> nat \<Rightarrow> string \<Rightarrow> nat option" where
  "str_find c start s = (case filter (\<lambda>i. s ! i = c) [start..<length s] of [] \<Rightarrow> None | i # _ \<Rightarrow> Some i)"

definition rfind :: "char \<Rightarrow> string \<Rightarrow> int" where
  "rfind c s = (case filter (\<lambda>i. s ! i = c) (rev [0..<length s]) of [] \<Rightarrow> - 1 | i # _ \<Rightarrow> int i)"

definition unc_prefix :: string where
  "unc_prefix = [CHR 0x5C, CHR 0x5C, CHR ''?'', CHR 0x5C, CHR ''U'', CHR ''N'', CHR ''C'', CHR 0x5C]"

definition splitdrive :: "string \<Rightarrow> string \<times> string" where
  "splitdrive p =
     (if length p \<ge> 2 then
        (let normp = map (\<lambda>c. if c = altsep then sep else c) p in
         if take 2 normp = [sep, sep] then
           (let start = (if map upper (take 8 normp) = unc_prefix then 8 else 2) in
            case str_find sep start normp of
              None \<Rightarrow> (p, [])
            | Some index \<Rightarrow>
                (case str_find sep (index + 1) normp of
                   None \<Rightarrow> (p, [])
                 | Some index2 \<Rightarrow> (take index2 p, drop index2 p)))
         else if take 1 (drop 1 normp) = [CHR '':''] then (take 2 p, drop 2 p)
         else ([], p))
      else ([], p))"

fun join_loop :: "string \<Rightarrow> string \<Rightarrow> string list \<Rightarrow> string \<times> string" where
  "join_loop result_drive result_path [] = (result_drive, result_path)"
| "join_loop result_drive result_path (p # paths) =
     (case splitdrive p of
        (p_drive, p_path) \<Rightarrow>
          if p_path \<noteq> [] \<and> hd p_path \<in> set seps then
            join_loop (if p_drive \<noteq> [] \<or> result_drive = [] then p_drive else result_drive) p_path paths
          else if p_drive \<noteq> [] \<and> p_drive \<noteq> result_drive \<and> map lower p_drive \<noteq> map lower result_drive then
            join_loop p_drive p_path paths
          else
            join_loop (if p_drive \<noteq> [] \<and> p_drive \<noteq> result_drive then p_drive else result_drive)
              ((if result_path \<noteq> [] \<and> last result_path \<notin> set seps then result_path @ [sep]
                else result_path) @ p_path)
              paths)"

definition join :: "string \<Rightarrow> string list \<Rightarrow> string" where
  "join path paths =
     (case splitdrive path of
        (result_drive0, result_path0) \<Rightarrow>
          (case join_loop result_drive0 result_path0 paths of
             (result_drive, result_path) \<Rightarrow>
               if result_path \<noteq> [] \<and> hd result_path \<notin> set seps \<and>
                  result_drive \<noteq> [] \<and> last result_drive \<noteq> CHR '':''
               then result_drive @ [sep] @ result_path
               else result_drive @ result_path))"

text \<open>\<open>genericpath._splitext\<close>: the extension starts at the last dot after the last separator,
  unless the name consists of dots up to there.\<close>

function splitext_loop :: "string \<Rightarrow> int \<Rightarrow> int \<Rightarrow> string \<times> string" where
  "splitext_loop p filenameIndex dotIndex =
     (if filenameIndex < dotIndex then
        (if take 1 (drop (nat filenameIndex) p) \<noteq> [CHR ''.''] then
           (take (nat dotIndex) p, drop (nat dotIndex) p)
         else splitext_loop p (filenameIndex + 1) dotIndex)
      else (p, []))"
  by pat_completeness auto
termination
  by (relation "measure (\<lambda>(p, f, d). nat (d - f))") auto

definition splitext :: "string \<Rightarrow> string \<times> string" where
  "splitext p =
     (let sepIndex = max (rfind sep p) (rfind altsep p);
          dotIndex = rfind (CHR ''.'') p
      in if dotIndex > sepIndex then splitext_loop p (sepIndex + 1) dotIndex else (p, []))"

fun basename_loop :: "string \<Rightarrow> nat \<Rightarrow> nat" where
  "basename_loop p 0 = 0"
| "basename_loop p (Suc i) = (if p ! i \<notin> set seps then basename_loop p i else Suc i)"

definition basename :: "string \<Rightarrow> string" where
  "basename p = (case splitdrive p of (d, p') \<Rightarrow> drop (basename_loop p' (length p')) p')"

section \<open>The environment\<close>

text \<open>Exceptions are values: the class of the exception and the text that \<open>str\<close> gives, which is
  what the log messages and the returned status strings show.\<close>

datatype exc_class = com_error | TypeError | AttributeError | KeyError | OSError

datatype exn = Exn exc_class string

fun exc_class_of :: "exn \<Rightarrow> exc_class" where
  "exc_class_of (Exn k m) = k"

fun str :: "exn \<Rightarrow> string" where
  "str (Exn k m) = m"

datatype level = INFO | WARNING | ERROR

text \<open>A file system maps the components of a path to the node found there. \<open>components\<close>
  splits a path at both separators and drops the empty components; \<open>resolve\<close> then removes
  \<open>.\<close> and lets \<open>..\<close> step back to the parent, as Windows does before it looks a path up
  (a drive has no parent). A path without a drive is looked up from a current directory
  that has no parent; the case of names, and trailing dots and spaces, are not modelled.\<close>

datatype node = Dir | File string

type_synonym filesystem = "string list \<Rightarrow> node option"

fun split_components :: "string \<Rightarrow> string \<Rightarrow> string list" where
  "split_components cur [] = (if cur = [] then [] else [cur])"
| "split_components cur (c # s) =
     (if c \<in> set seps then (if cur = [] then [] else [cur]) @ split_components [] s
      else split_components (cur @ [c]) s)"

definition components :: "string \<Rightarrow> string list" where
  "components p = split_components [] p"

definition is_drive :: "string \<Rightarrow> bool" where
  "is_drive c = (length c = 2 \<and> c ! 1 = CHR '':'')"

definition parent :: "string list \<Rightarrow> string list" where
  "parent cs = (if cs = [] \<or> (length cs = 1 \<and> is_drive (hd cs)) then cs else butlast cs)"

fun norm_components :: "string list \<Rightarrow> string list \<Rightarrow> string list" where
  "norm_components acc [] = acc"
| "norm_components acc (c # cs) =
     (if c = ''.'' then norm_components acc cs
      else if c = ''..'' then norm_components (parent acc) cs
      else norm_components (acc @ [c]) cs)"

definition resolve :: "string \<Rightarrow> string list" where
  "resolve p = norm_components [] (components p)"

definition isdir :: "filesystem \<Rightarrow> string \<Rightarrow> bool" where
  "isdir f p = (f (resolve p) = Some Dir)"

definition exists :: "filesystem \<Rightarrow> string \<Rightarrow> bool" where
  "exists f p = (f (resolve p) \<noteq> None)"

text \<open>\<open>os.mkdir\<close> at a resolved path. It raises \<open>FileExistsError\<close> (error 183) when something
  is there, and \<open>FileNotFoundError\<close> (error 3) when the parent is not a directory or the path
  is a drive that does not exist. Both are \<open>OSError\<close>; the code of the error tells the
  subclass.\<close>

definition FileExistsError :: exn where
  "FileExistsError = Exn OSError ''[WinError 183] Cannot create a file when that file already exists''"

definition FileNotFoundError :: exn where
  "FileNotFoundError = Exn OSError ''[WinError 3] The system cannot find the path specified''"

definition mkdir :: "string list \<Rightarrow> filesystem \<Rightarrow> exn + filesystem" where
  "mkdir cs f =
     (if f cs \<noteq> None then Inl FileExistsError
      else if cs = [] \<or> (length cs = 1 \<and> is_drive (hd cs)) \<or>
              (butlast cs \<noteq> [] \<and> f (butlast cs) \<noteq> Some Dir)
      then Inl FileNotFoundError
      else Inr (f(cs \<mapsto> Dir)))"

text \<open>\<open>os.makedirs(name, exist_ok=True)\<close>, on the components of \<open>name\<close>: the last three lines
  of the function, then the function. When the head of the path does not exist it is
  created first, by the same function; a \<open>FileExistsError\<close> of that call is ignored; a tail
  \<open>.\<close> needs no directory of its own. Then the directory itself is made, and an error
  of \<open>os.mkdir\<close> is ignored when the directory exists.\<close>

definition mkdir_exist_ok :: "string list \<Rightarrow> filesystem \<Rightarrow> exn + filesystem" where
  "mkdir_exist_ok cs f =
     (case mkdir cs f of
        Inl e \<Rightarrow> if f cs = Some Dir then Inr f else Inl e
      | Inr f' \<Rightarrow> Inr f')"

function makedirs_components :: "string list \<Rightarrow> filesystem \<Rightarrow> exn + filesystem" where
  "makedirs_components cs f =
     (if butlast cs \<noteq> [] \<and> f (norm_components [] (butlast cs)) = None then
        (case makedirs_components (butlast cs) f of
           Inl e \<Rightarrow>
             if e = FileExistsError then
               (if last cs = ''.'' then Inr f else mkdir_exist_ok (norm_components [] cs) f)
             else Inl e
         | Inr f1 \<Rightarrow>
             if last cs = ''.'' then Inr f1 else mkdir_exist_ok (norm_components [] cs) f1)
      else mkdir_exist_ok (norm_components [] cs) f)"
  by pat_completeness auto
termination
proof (relation "measure (\<lambda>(cs, f). length cs)")
  show "wf (measure (\<lambda>(cs, f). length cs))" by simp
next
  fix cs :: "string list" and f :: filesystem
  assume "butlast cs \<noteq> [] \<and> f (norm_components [] (butlast cs)) = None"
  then have "cs \<noteq> []" by auto
  then show "((butlast cs, f), (cs, f)) \<in> measure (\<lambda>(cs, f). length cs)" by simp
qed

declare makedirs_components.simps [simp del]

definition makedirs :: "string \<Rightarrow> filesystem \<Rightarrow> exn + filesystem" where
  "makedirs name f = makedirs_components (components name) f"

text \<open>\<open>shutil.rmtree(name, ignore_errors=True)\<close>, and what saving an attachment does to the
  file system: the write fails unless the parent is a directory and the target is not
  one, and replaces an existing file.\<close>

definition rmtree :: "string \<Rightarrow> filesystem \<Rightarrow> filesystem" where
  "rmtree name f =
     (let cs = resolve name in
      if cs \<noteq> [] \<and> f cs = Some Dir then (\<lambda>p. if prefix cs p then None else f p) else f)"

definition write_file :: "string \<Rightarrow> string \<Rightarrow> filesystem \<Rightarrow> exn + filesystem" where
  "write_file name content f =
     (let cs = resolve name in
      if cs = [] \<or> f cs = Some Dir \<or> (butlast cs \<noteq> [] \<and> f (butlast cs) \<noteq> Some Dir) then
        Inl (Exn com_error ''Cannot save the attachment. Path does not exist. Verify the path is correct.'')
      else Inr (f(cs \<mapsto> File content)))"

section \<open>The program\<close>

text \<open>\<open>str_nat\<close> is \<open>str\<close> of a natural number, and \<open>strftime\<close> the call
  \<open>since.strftime('%Y-%m-%d %H:%M:%S')\<close> of line 200.\<close>

fun str_nat :: "nat \<Rightarrow> string" where
  "str_nat n = (if n < 10 then [char_of (48 + n)] else str_nat (n div 10) @ [char_of (48 + n mod 10)])"

definition zfill :: "nat \<Rightarrow> string \<Rightarrow> string" where
  "zfill width s = replicate (width - length s) (CHR ''0'') @ s"

record datetime =
  year :: nat
  month :: nat
  day :: nat
  hour :: nat
  minute :: nat
  second :: nat

definition strftime :: "datetime \<Rightarrow> string" where
  "strftime d =
     zfill 4 (str_nat (year d)) @ ''-'' @ zfill 2 (str_nat (month d)) @ ''-'' @ zfill 2 (str_nat (day d))
     @ '' '' @ zfill 2 (str_nat (hour d)) @ '':'' @ zfill 2 (str_nat (minute d)) @ '':''
     @ zfill 2 (str_nat (second d))"

subsection \<open>Mail objects and the state\<close>

text \<open>The objects of the Outlook object model, with the attributes the program reads. An
  attribute whose access can fail is an option (\<open>Sender\<close>, \<open>GetExchangeUser\<close>, whose value
  stands for the \<open>PrimarySmtpAddress\<close> of the user) or comes with the exception it raises
  (\<open>FileName_fault\<close>, \<open>SaveAsFile_fault\<close>, and \<open>read_fault\<close> for the attributes of a message that
  \<open>process_email\<close> reads). A mail item is what \<open>send_email_via_outlook\<close>
  composes; \<open>attachment_detail\<close> and \<open>email_detail\<close> are the dictionaries that
  \<open>download_attachment\<close> and \<open>process_email\<close> build, the keys \<open>id\<close>, \<open>name\<close> and \<open>from\<close> written
  \<open>uid\<close>, \<open>email_name\<close> and \<open>from_address\<close>.\<close>

record address_entry =
  Name :: string
  GetExchangeUser :: "string option"

record attachment =
  FileName :: string
  Content :: string
  FileName_fault :: "exn option"
  SaveAsFile_fault :: "exn option"

datatype message_attribute =
    Attachments_attribute
  | Subject_attribute
  | ConversationID_attribute
  | Sender_attribute
  | GetExchangeUser_call
  | PrimarySmtpAddress_attribute
  | Name_attribute
  | Body_attribute

record message =
  Subject :: string
  ConversationID :: string
  Sender :: "address_entry option"
  Body :: string
  UnRead :: bool
  Attachments :: "attachment list"
  read_fault :: "message_attribute \<Rightarrow> exn option"

record folder =
  folder_Name :: string
  Items :: "message list"

record mail_item =
  mail_To :: string
  mail_Subject :: string
  mail_CC :: "string list"
  mail_BCC :: "string list"
  mail_Body :: string
  mail_HTMLBody :: string
  mail_Attachments :: "(string \<times> string option) list"

record attachment_detail =
  path :: string
  name :: string
  uid :: string

record email_detail =
  email_name :: string
  subject :: string
  conversation_id :: string
  from_address :: string
  sender :: string
  body :: string
  files :: "attachment_detail list"
  status :: string

text \<open>The state the program runs in: the file system, the records passed to \<open>logging\<close>, the
  environment variable \<open>LOCALAPPDATA\<close>, \<open>sys.modules\<close>, and the mail client. \<open>com_fault\<close> says
  which calls of the client raise, and what; \<open>Restrict\<close> and \<open>Sort\<close> are the client's filter
  and sort, left open. \<open>outbox\<close> collects the mail items sent, and \<open>saves\<close> every call of
  \<open>SaveAsFile\<close>: its target path and the file system it was made in. \<open>uuid4_source\<close> stands
  for \<open>uuid.uuid4\<close>.\<close>

datatype com_call =
    EnsureDispatch
  | Dispatch_WScript_Shell
  | SpecialFolders
  | Dispatch_Outlook
  | CreateItem
  | Set_To
  | Set_Subject
  | Set_CC
  | Set_BCC
  | Set_Body
  | Set_HTMLBody
  | Attachments_Add_call string
  | SetProperty string
  | Send
  | GetNamespace
  | GetDefaultFolder
  | Restrict_call string
  | Sort_call

record world =
  fs :: filesystem
  log_records :: "(level \<times> string) list"
  environ_LOCALAPPDATA :: "string option"
  sys_modules :: "string list"
  getfullpathname :: "string \<Rightarrow> string"
  com_fault :: "com_call \<Rightarrow> exn option"
  MyDocuments :: string
  Folders :: "folder list"
  Restrict :: "string \<Rightarrow> message list \<Rightarrow> message list"
  Sort :: "message list \<Rightarrow> message list"
  outbox :: "mail_item list"
  saves :: "(string \<times> filesystem) list"
  uuid4_source :: "nat \<Rightarrow> string"
  uuid4_count :: nat

text \<open>A call returns a value or raises, and leaves a state. \<open>and_then\<close> runs the rest of a body
  after a call that returned, and passes an exception on.\<close>

type_synonym 'a result = "(exn + 'a) \<times> world"

definition and_then :: "'a result \<Rightarrow> ('a \<Rightarrow> world \<Rightarrow> 'b result) \<Rightarrow> 'b result" where
  "and_then m f = (case m of (Inl e, w) \<Rightarrow> (Inl e, w) | (Inr x, w) \<Rightarrow> f x w)"

definition logging_info :: "string \<Rightarrow> world \<Rightarrow> world" where
  "logging_info msg w = w\<lparr>log_records := log_records w @ [(INFO, msg)]\<rparr>"

definition logging_warning :: "string \<Rightarrow> world \<Rightarrow> world" where
  "logging_warning msg w = w\<lparr>log_records := log_records w @ [(WARNING, msg)]\<rparr>"

definition logging_error :: "string \<Rightarrow> world \<Rightarrow> world" where
  "logging_error msg w = w\<lparr>log_records := log_records w @ [(ERROR, msg)]\<rparr>"

definition com :: "com_call \<Rightarrow> world \<Rightarrow> unit result" where
  "com c w = (case com_fault w c of Some e \<Rightarrow> (Inl e, w) | None \<Rightarrow> (Inr (), w))"

subsection \<open>Helpers\<close>

text \<open>\<open>create_folder\<close>, lines 15-26. No handler: an exception of the shell object propagates.\<close>

definition create_folder :: "string \<Rightarrow> world \<Rightarrow> string result" where
  "create_folder output_dir w =
     and_then (com Dispatch_WScript_Shell w) (\<lambda>shell w.
     and_then (com SpecialFolders w) (\<lambda>u w.
       let documentPath = MyDocuments w;
           folderPath = join documentPath [output_dir]
       in (Inr (join folderPath [[]]), w)))"

text \<open>\<open>is_outlook_installed\<close>, lines 38-58. The pattern of line 47 matches a module name that
  starts with \<open>win32com.gen_py.\<close> followed by a character other than a newline. Line 49
  stands before the \<open>try\<close>: with \<open>LOCALAPPDATA\<close> unset, \<open>os.environ.get\<close> returns \<open>None\<close> and
  \<open>os.path.join\<close> raises \<open>TypeError\<close>. \<open>sys.modules\<close> is taken as the list of its keys, each
  module being registered under its own name, so that line 48 deletes the module and does
  not raise.\<close>

definition is_outlook_installed :: "world \<Rightarrow> bool result" where
  "is_outlook_installed w =
     (let w1 = w\<lparr>sys_modules :=
                  filter (\<lambda>module. \<not> (prefix ''win32com.gen_py.'' module \<and> length module > 16
                                          \<and> module ! 16 \<noteq> CHR 0x0A))
                    (sys_modules w)\<rparr>
      in case environ_LOCALAPPDATA w1 of
           None \<Rightarrow>
             (Inl (Exn TypeError ''expected str, bytes or os.PathLike object, not NoneType''), w1)
         | Some localappdata \<Rightarrow>
             (let w2 = w1\<lparr>fs := rmtree (join localappdata [''Temp'', ''gen_py'']) (fs w1)\<rparr>
              in case com_fault w2 EnsureDispatch of
                   None \<Rightarrow> (Inr True, w2)
                 | Some e \<Rightarrow>
                     (Inr False,
                      logging_error
                        ((if exc_class_of e = com_error then ''COM error when accessing Outlook: ''
                          else ''Unexpected error: '') @ str e) w2)))"

subsection \<open>Sending\<close>

text \<open>\<open>send_email_via_outlook\<close>, lines 60-139. \<open>compose_and_send\<close> is the body of the \<open>try\<close>
  (lines 93-135), the two loops over \<open>embedded_images\<close> and \<open>attachments\<close> being
  \<open>add_embedded_images\<close> and \<open>add_attachments\<close>. An attachment is a dictionary; one without
  the key \<open>path\<close> raises \<open>KeyError\<close>. \<open>abspath\<close> is \<open>os.path.abspath\<close>, which depends on the
  current directory of the process: \<open>getfullpathname\<close> stands for it.\<close>

definition Attachments_Add :: "string \<Rightarrow> mail_item \<Rightarrow> world \<Rightarrow> mail_item result" where
  "Attachments_Add source mail w =
     and_then (com (Attachments_Add_call source) w) (\<lambda>u w.
       if \<not> exists (fs w) source then
         (Inl (Exn com_error ''Cannot find this file. Verify the path and file name are correct.''), w)
       else (Inr (mail\<lparr>mail_Attachments := mail_Attachments mail @ [(source, None)]\<rparr>), w))"

fun add_embedded_images :: "string list \<Rightarrow> mail_item \<Rightarrow> world \<Rightarrow> mail_item result" where
  "add_embedded_images [] mail w = (Inr mail, w)"
| "add_embedded_images (image_path # rest) mail w =
     (case Attachments_Add image_path mail w of
        (Inl e, w1) \<Rightarrow> (Inl e, w1)
      | (Inr mail1, w1) \<Rightarrow>
          (case com (SetProperty (basename image_path)) w1 of
             (Inl e, w2) \<Rightarrow> (Inl e, w2)
           | (Inr u, w2) \<Rightarrow>
               add_embedded_images rest
                 (mail1\<lparr>mail_Attachments :=
                     butlast (mail_Attachments mail1) @ [(image_path, Some (basename image_path))]\<rparr>)
                 w2))"

definition abspath :: "world \<Rightarrow> string \<Rightarrow> string" where
  "abspath w p = getfullpathname w p"

fun add_attachments :: "(string \<rightharpoonup> string) list \<Rightarrow> mail_item \<Rightarrow> world \<Rightarrow> mail_item result" where
  "add_attachments [] mail w = (Inr mail, w)"
| "add_attachments (attachment # rest) mail w =
     (case attachment ''path'' of
        None \<Rightarrow> (Inl (Exn KeyError [CHR 0x27, CHR ''p'', CHR ''a'', CHR ''t'', CHR ''h'', CHR 0x27]), w)
      | Some p \<Rightarrow>
          (let attch_path = abspath w p in
           if exists (fs w) attch_path then
             (case Attachments_Add attch_path mail w of
                (Inl e, w1) \<Rightarrow> (Inl e, w1)
              | (Inr mail1, w1) \<Rightarrow> add_attachments rest mail1 w1)
           else add_attachments rest mail (logging_warning (''Attachment not found: '' @ attch_path) w)))"

definition truthy :: "'a list option \<Rightarrow> bool" where
  "truthy x = (case x of None \<Rightarrow> False | Some l \<Rightarrow> l \<noteq> [])"

definition or_empty :: "'a list option \<Rightarrow> 'a list" where
  "or_empty x = (case x of None \<Rightarrow> [] | Some l \<Rightarrow> l)"

definition empty_mail :: mail_item where
  "empty_mail = \<lparr>mail_To = [], mail_Subject = [], mail_CC = [], mail_BCC = [], mail_Body = [],
                  mail_HTMLBody = [], mail_Attachments = []\<rparr>"

definition compose_and_send ::
  "string \<Rightarrow> string \<Rightarrow> string \<Rightarrow> (string \<rightharpoonup> string) list option \<Rightarrow> bool \<Rightarrow> string list option
   \<Rightarrow> string list option \<Rightarrow> string list option \<Rightarrow> world \<Rightarrow> unit result" where
  "compose_and_send to subj body_text attachments html_body cc bcc embedded_images w =
     and_then (com Dispatch_Outlook w) (\<lambda>outlook w.
     and_then (com CreateItem w) (\<lambda>u w.
     and_then (com Set_To w) (\<lambda>u w.
     and_then (com Set_Subject w) (\<lambda>u w.
     and_then (if truthy cc then com Set_CC w else (Inr (), w)) (\<lambda>u w.
     and_then (if truthy bcc then com Set_BCC w else (Inr (), w)) (\<lambda>u w.
     and_then (if html_body then com Set_HTMLBody w else com Set_Body w) (\<lambda>u w.
     and_then (add_embedded_images (or_empty embedded_images)
                 (empty_mail\<lparr>mail_To := to, mail_Subject := subj,
                    mail_CC := (if truthy cc then or_empty cc else []),
                    mail_BCC := (if truthy bcc then or_empty bcc else []),
                    mail_Body := (if html_body then [] else body_text),
                    mail_HTMLBody := (if html_body then body_text else [])\<rparr>) w) (\<lambda>mail w.
     and_then (add_attachments (or_empty attachments) mail w) (\<lambda>mail w.
     and_then (com Send w) (\<lambda>u w.
       (Inr (), logging_info ''Email sent successfully.'' (w\<lparr>outbox := outbox w @ [mail]\<rparr>))))))))))))"

definition send_email_via_outlook ::
  "string \<Rightarrow> string \<Rightarrow> string \<Rightarrow> (string \<rightharpoonup> string) list option \<Rightarrow> bool \<Rightarrow> string list option
   \<Rightarrow> string list option \<Rightarrow> string list option \<Rightarrow> world \<Rightarrow> string result" where
  "send_email_via_outlook to subj body_text attachments html_body cc bcc embedded_images w =
     and_then (is_outlook_installed w) (\<lambda>installed w.
       if \<not> installed then (Inr ''Outlook is not installed or accessible.'', w)
       else if \<not> is_valid_email to then (Inr (''Invalid email addresses provided: '' @ to), w)
       else
         (case compose_and_send to subj body_text attachments html_body cc bcc embedded_images w of
            (Inr u, w1) \<Rightarrow> (Inr ''Email sent successfully.'', w1)
          | (Inl e, w1) \<Rightarrow>
              (Inr (''Error sending email: '' @ str e),
               logging_error (''Error sending email: '' @ str e) w1)))"

subsection \<open>Scanning\<close>

text \<open>\<open>download_attachment\<close>, lines 272-301. Reading \<open>FileName\<close> happens before the \<open>try\<close>, saving
  inside it.\<close>

definition SaveAsFile :: "attachment \<Rightarrow> string \<Rightarrow> world \<Rightarrow> unit result" where
  "SaveAsFile att target w =
     (let w1 = w\<lparr>saves := saves w @ [(target, fs w)]\<rparr> in
      case SaveAsFile_fault att of
        Some e \<Rightarrow> (Inl e, w1)
      | None \<Rightarrow>
          (case write_file target (Content att) (fs w1) of
             Inl e \<Rightarrow> (Inl e, w1)
           | Inr f \<Rightarrow> (Inr (), w1\<lparr>fs := f\<rparr>)))"

definition uuid4 :: "world \<Rightarrow> string \<times> world" where
  "uuid4 w = (uuid4_source w (uuid4_count w), w\<lparr>uuid4_count := Suc (uuid4_count w)\<rparr>)"

definition download_attachment ::
  "attachment \<Rightarrow> string \<Rightarrow> string list \<Rightarrow> world \<Rightarrow> attachment_detail option result" where
  "download_attachment att output_dir allowed_file_types w =
     (case FileName_fault att of
        Some e \<Rightarrow> (Inl e, w)
      | None \<Rightarrow>
          (let file_extension = snd (splitext (FileName att)) in
           if allowed_file_types = [] \<or> file_extension \<in> set allowed_file_types then
             (let attachment_path = join output_dir [FileName att] in
              case SaveAsFile att attachment_path w of
                (Inr u, w1) \<Rightarrow>
                  (let w2 = logging_info (''Attachment '' @ FileName att @ '' saved'') w1;
                       (i, w3) = uuid4 w2
                   in (Inr (Some \<lparr>path = attachment_path, name = FileName att, uid = i\<rparr>), w3))
              | (Inl e, w1) \<Rightarrow>
                  (Inr None,
                   logging_error (''Error saving attachment '' @ FileName att @ '': '' @ str e) w1))
           else (Inr None, w)))"

text \<open>\<open>process_email\<close>, lines 220-270. Everything it does stands in the \<open>try\<close> of line 235,
  so an exception of any read of the message (\<open>msg.Attachments\<close> in line 244, the attributes
  of lines 256-261 in the order of the dictionary) is logged and the record dropped.
  \<open>collect_attachments\<close> is the loop over the futures, \<open>build_email_detail\<close> the dictionary of
  lines 255-264.

  The downloads are submitted to the thread pool in the order of the attachments and
  their results are read in that order (lines 241-252); here they run one after the
  other in that order. The pool may run them in another order and interleave them, which
  changes the order of the save calls and of the log records, and which of two
  attachments with the same file name is written last. It changes neither which downloads
  return a record, since that depends only on the attachment and on the directories
  (which no download changes), nor the order of \<open>attachment_details\<close>, which is the order
  of the futures.\<close>

fun collect_attachments ::
  "attachment list \<Rightarrow> string \<Rightarrow> string list \<Rightarrow> attachment_detail list \<Rightarrow> world
   \<Rightarrow> attachment_detail list \<times> world" where
  "collect_attachments [] output_dir allowed_file_types attachment_details w = (attachment_details, w)"
| "collect_attachments (att # atts) output_dir allowed_file_types attachment_details w =
     (case download_attachment att output_dir allowed_file_types w of
        (Inr (Some attachment_detail), w1) \<Rightarrow>
          collect_attachments atts output_dir allowed_file_types
            (attachment_details @ [attachment_detail]) w1
      | (Inr None, w1) \<Rightarrow>
          collect_attachments atts output_dir allowed_file_types attachment_details w1
      | (Inl e, w1) \<Rightarrow>
          collect_attachments atts output_dir allowed_file_types attachment_details
            (logging_error (''Error saving attachment: '' @ str e) w1))"

definition none_has_no_attribute :: "string \<Rightarrow> exn" where
  "none_has_no_attribute attr =
     Exn AttributeError ([CHR 0x27] @ ''NoneType'' @ [CHR 0x27] @ '' object has no attribute ''
                         @ [CHR 0x27] @ attr @ [CHR 0x27])"

definition read_attribute :: "message \<Rightarrow> message_attribute \<Rightarrow> exn + 'a \<Rightarrow> exn + 'a" where
  "read_attribute msg attribute rest =
     (case read_fault msg attribute of Some e \<Rightarrow> Inl e | None \<Rightarrow> rest)"

definition build_email_detail :: "message \<Rightarrow> attachment_detail list \<Rightarrow> exn + email_detail" where
  "build_email_detail msg attachment_details =
     read_attribute msg Subject_attribute
    (read_attribute msg ConversationID_attribute
    (read_attribute msg Sender_attribute
    (case Sender msg of
       None \<Rightarrow> Inl (none_has_no_attribute ''GetExchangeUser'')
     | Some entry \<Rightarrow>
    (read_attribute msg GetExchangeUser_call
    (case GetExchangeUser entry of
       None \<Rightarrow> Inl (none_has_no_attribute ''PrimarySmtpAddress'')
     | Some address \<Rightarrow>
    (read_attribute msg PrimarySmtpAddress_attribute
    (read_attribute msg Name_attribute
    (read_attribute msg Body_attribute
      (Inr \<lparr>email_name = Subject msg, subject = Subject msg,
            conversation_id = ConversationID msg, from_address = address,
            sender = Name entry, body = Body msg, files = attachment_details,
            status = ''pending''\<rparr>)))))))))"

definition process_email ::
  "message \<Rightarrow> email_detail list \<Rightarrow> string \<Rightarrow> string list option \<Rightarrow> world
   \<Rightarrow> email_detail list \<times> world" where
  "process_email msg emails_list output_dir allowed_file_types w =
     (case read_fault msg Attachments_attribute of
        Some e \<Rightarrow> (emails_list, logging_error (''Error processing email: '' @ str e) w)
      | None \<Rightarrow>
     (case collect_attachments (Attachments msg) output_dir (or_empty allowed_file_types) [] w of
        (attachment_details, w1) \<Rightarrow>
          (case build_email_detail msg attachment_details of
             Inr email_detail \<Rightarrow> (emails_list @ [email_detail], w1)
           | Inl e \<Rightarrow> (emails_list, logging_error (''Error processing email: '' @ str e) w1))))"

text \<open>\<open>get_emails\<close>, lines 141-218. \<open>process_messages\<close> is the loop of lines 206-212;
  \<open>process_email\<close> raises nothing, so the handler of line 211 has no case. \<open>scan_folder\<close> is
  the body of the \<open>try\<close> (lines 179-212); it tells a \<open>return\<close> inside the \<open>try\<close> from running
  to its end, after which line 217 logs the number of records.\<close>

fun process_messages ::
  "message list \<Rightarrow> bool \<Rightarrow> email_detail list \<Rightarrow> string \<Rightarrow> string list option \<Rightarrow> world
   \<Rightarrow> email_detail list \<times> world" where
  "process_messages [] include_read emails folderPath allowed_file_types w = (emails, w)"
| "process_messages (msg # messages) include_read emails folderPath allowed_file_types w =
     (if (\<not> include_read \<and> UnRead msg) \<or> include_read then
        (case process_email msg emails folderPath allowed_file_types w of
           (emails1, w1) \<Rightarrow>
             process_messages messages include_read emails1 folderPath allowed_file_types w1)
      else process_messages messages include_read emails folderPath allowed_file_types w)"

datatype flow = Returned | Completed

definition subject_query :: "string \<Rightarrow> string" where
  "subject_query subj =
     ''@SQL=(urn:schemas:httpmail:subject LIKE '' @ [CHR 0x27] @ ''%'' @ subj @ ''%'' @ [CHR 0x27] @ '')''"

definition date_query :: "datetime \<Rightarrow> string" where
  "date_query since = ''[ReceivedTime] >= '' @ [CHR 0x27] @ strftime since @ [CHR 0x27]"

definition scan_folder ::
  "string \<Rightarrow> string \<Rightarrow> string \<Rightarrow> string list option \<Rightarrow> bool \<Rightarrow> datetime option
   \<Rightarrow> email_detail list \<Rightarrow> world \<Rightarrow> (exn + flow) \<times> email_detail list \<times> world" where
  "scan_folder subj folder_name folderPath allowed_file_types include_read since emails w =
     (case com_fault w Dispatch_Outlook of Some e \<Rightarrow> (Inl e, emails, w) | None \<Rightarrow>
      case com_fault w GetNamespace of Some e \<Rightarrow> (Inl e, emails, w) | None \<Rightarrow>
      case com_fault w GetDefaultFolder of Some e \<Rightarrow> (Inl e, emails, w) | None \<Rightarrow>
      case List.find (\<lambda>folder. folder_Name folder = folder_name) (Folders w) of
        None \<Rightarrow>
          (Inr Returned, emails,
           logging_error (''Folder '' @ [CHR 0x27] @ folder_name @ [CHR 0x27] @ '' not found.'') w)
      | Some found_folder \<Rightarrow>
      case com_fault w (Restrict_call (subject_query subj)) of Some e \<Rightarrow> (Inl e, emails, w) | None \<Rightarrow>
      case (case since of
              None \<Rightarrow> Inr (Restrict w (subject_query subj) (Items found_folder))
            | Some d \<Rightarrow>
                (case com_fault w (Restrict_call (date_query d)) of
                   Some e \<Rightarrow> Inl e
                 | None \<Rightarrow>
                     Inr (Restrict w (date_query d)
                            (Restrict w (subject_query subj) (Items found_folder)))))
      of Inl e \<Rightarrow> (Inl e, emails, w) | Inr messages \<Rightarrow>
      case com_fault w Sort_call of Some e \<Rightarrow> (Inl e, emails, w) | None \<Rightarrow>
      case process_messages (Sort w messages) include_read emails folderPath allowed_file_types w of
        (emails1, w1) \<Rightarrow> (Inr Completed, emails1, w1))"

definition get_emails ::
  "string \<Rightarrow> string \<Rightarrow> string \<Rightarrow> string \<Rightarrow> string list option \<Rightarrow> bool \<Rightarrow> datetime option
   \<Rightarrow> world \<Rightarrow> email_detail list result" where
  "get_emails email subj folder_name output_dir allowed_file_types include_read since w =
     and_then (create_folder output_dir w) (\<lambda>folderPath w.
     and_then
       (if \<not> isdir (fs w) folderPath then
          (case makedirs folderPath (fs w) of
             Inl e \<Rightarrow> (Inl e, w)
           | Inr f \<Rightarrow> (Inr (), logging_info (''Created directory: '' @ folderPath) (w\<lparr>fs := f\<rparr>)))
        else (Inr (), w)) (\<lambda>u w.
       if \<not> is_valid_email email then
         (Inr [], logging_error (''Invalid email addresses provided: '' @ email) w)
       else
         (case scan_folder subj folder_name folderPath allowed_file_types include_read since [] w of
            (Inr Returned, emails, w1) \<Rightarrow> (Inr emails, w1)
          | (Inr Completed, emails, w1) \<Rightarrow>
              (Inr emails, logging_info (''Processed '' @ str_nat (length emails) @ '' emails.'') w1)
          | (Inl e, emails, w1) \<Rightarrow>
              (Inr emails,
               logging_info (''Processed '' @ str_nat (length emails) @ '' emails.'')
                 (logging_error (''Error when processing email messages: '' @ str e) w1)))))"

subsection \<open>Sample data for the worked instances\<close>

text \<open>A machine with two drives and nothing on them, a user whose Documents folder is
  \<open>C:\Users\u\Documents\<close>, a process started in \<open>C:\Users\u\<close>, and a mail store with one folder
  below the inbox.\<close>

definition home_dir :: string where
  "home_dir = ''C:'' @ [sep] @ ''Users'' @ [sep] @ ''u''"

definition documents_dir :: string where
  "documents_dir = ''C:'' @ [sep] @ ''Users'' @ [sep] @ ''u'' @ [sep] @ ''Documents''"

definition report_pdf :: attachment where
  "report_pdf = \<lparr>FileName = ''x.pdf'', Content = ''%PDF'', FileName_fault = None,
                  SaveAsFile_fault = None\<rparr>"

definition notes_docx :: attachment where
  "notes_docx = \<lparr>FileName = ''x.docx'', Content = ''PK'', FileName_fault = None,
                  SaveAsFile_fault = None\<rparr>"

definition broken_pdf :: attachment where
  "broken_pdf = \<lparr>FileName = ''x.pdf'', Content = ''%PDF'', FileName_fault = None,
                  SaveAsFile_fault = Some (Exn com_error ''The operation failed.'')\<rparr>"

definition alice :: address_entry where
  "alice = \<lparr>Name = ''Alice'', GetExchangeUser = Some ''alice@example.com''\<rparr>"

definition unread_msg :: message where
  "unread_msg = \<lparr>Subject = ''Report A'', ConversationID = ''c1'', Sender = Some alice,
                  Body = ''hello'', UnRead = True, Attachments = [report_pdf, broken_pdf],
                  read_fault = (\<lambda>attribute. None)\<rparr>"

definition read_msg :: message where
  "read_msg = \<lparr>Subject = ''Report B'', ConversationID = ''c2'', Sender = Some alice,
                Body = ''again'', UnRead = False, Attachments = [],
                read_fault = (\<lambda>attribute. None)\<rparr>"


definition reports_folder :: folder where
  "reports_folder = \<lparr>folder_Name = ''Reports'', Items = [unread_msg, read_msg]\<rparr>"

definition sample_world :: world where
  "sample_world =
     \<lparr>fs = [[''C:''] \<mapsto> Dir, [''D:''] \<mapsto> Dir],
      log_records = [],
      environ_LOCALAPPDATA = Some (''C:'' @ [sep] @ ''Users'' @ [sep] @ ''u'' @ [sep] @ ''AppData''),
      sys_modules = [''os'', ''win32com.gen_py.outlook''],
      getfullpathname = (\<lambda>p. join home_dir [p]),
      com_fault = (\<lambda>c. None),
      MyDocuments = documents_dir,
      Folders = [reports_folder],
      Restrict = (\<lambda>query messages. messages),
      Sort = (\<lambda>messages. messages),
      outbox = [],
      saves = [],
      uuid4_source = (\<lambda>n. ''uuid-'' @ str_nat n),
      uuid4_count = 0\<rparr>"

definition inbox_dir :: string where
  "inbox_dir = documents_dir @ [sep] @ ''out'' @ [sep]"

text \<open>The sample world after the destination directory has been created.\<close>

definition ready_world :: world where
  "ready_world =
     sample_world\<lparr>fs := (\<lambda>p. if p \<noteq> [] \<and> prefix p (resolve inbox_dir) then Some Dir else None)\<rparr>"

section \<open>The address validator (C1)\<close>

text \<open>No function of the parser invents an \<open>@\<close>: on a field without one, every piece of
  text it returns, and the rest of the field it leaves, is free of it.\<close>

definition at_free :: "string \<Rightarrow> bool" where
  "at_free s = (CHR ''@'' \<notin> set s)"

lemma at_free_simps [simp]:
  "at_free []"
  "at_free (c # s) = (c \<noteq> CHR ''@'' \<and> at_free s)"
  "at_free (a @ b) = (at_free a \<and> at_free b)"
  "at_free (concat xs) = (\<forall>x \<in> set xs. at_free x)"
  by (auto simp: at_free_def)


























subsection \<open>The domain component of a parsed address\<close>







section \<open>The read filter of the scan loop (C2)\<close>





section \<open>The attachment fetcher (C7, C8)\<close>

text \<open>The allow-list test of \<open>download_attachment\<close> (line 285), and the condition under which
  the file system accepts a write to a target path.\<close>

definition passes_allow_list :: "attachment \<Rightarrow> string list \<Rightarrow> bool" where
  "passes_allow_list att allowed_file_types =
     (allowed_file_types = [] \<or> snd (splitext (FileName att)) \<in> set allowed_file_types)"

definition write_ok :: "filesystem \<Rightarrow> string \<Rightarrow> bool" where
  "write_ok f target =
     (resolve target \<noteq> [] \<and> f (resolve target) \<noteq> Some Dir \<and>
      (butlast (resolve target) = [] \<or> f (butlast (resolve target)) = Some Dir))"

lemma write_file_Inr:
  "write_file target content f = Inr f' \<longleftrightarrow>
     write_ok f target \<and> f' = f(resolve target \<mapsto> File content)"
  by (auto simp: write_file_def write_ok_def Let_def)

lemma write_file_Inl: "(\<exists>e. write_file target content f = Inl e) \<longleftrightarrow> \<not> write_ok f target"
  by (auto simp: write_file_def write_ok_def Let_def)

lemma SaveAsFile_Inr:
  "SaveAsFile att target w = (Inr u, w') \<longleftrightarrow>
     SaveAsFile_fault att = None \<and> write_ok (fs w) target \<and>
     w' = w\<lparr>saves := saves w @ [(target, fs w)], fs := (fs w)(resolve target \<mapsto> File (Content att))\<rparr>"
proof (cases "write_file target (Content att) (fs w)")
  case (Inl e)
  then have "\<not> write_ok (fs w) target" using write_file_Inl[of target "Content att" "fs w"] by blast
  then show ?thesis using Inl by (auto simp: SaveAsFile_def Let_def split: option.splits)
next
  case (Inr f')
  then show ?thesis
    using write_file_Inr[of target "Content att" "fs w" f']
    by (auto simp: SaveAsFile_def Let_def split: option.splits)
qed

lemma SaveAsFile_Inl:
  "SaveAsFile att target w = (Inl e, w') \<Longrightarrow>
     w' = w\<lparr>saves := saves w @ [(target, fs w)]\<rparr> \<and>
     (SaveAsFile_fault att \<noteq> None \<or> \<not> write_ok (fs w) target)"
  using write_file_Inr[of target "Content att" "fs w"]
  by (auto simp: SaveAsFile_def Let_def split: option.splits sum.splits)

lemma download_attachment_Some:
  assumes "download_attachment att output_dir allowed w = (Inr (Some d), w')"
  shows "FileName_fault att = None" "passes_allow_list att allowed"
    "SaveAsFile_fault att = None" "write_ok (fs w) (join output_dir [FileName att])"
    "d = \<lparr>path = join output_dir [FileName att], name = FileName att,
           uid = uuid4_source w (uuid4_count w)\<rparr>"
    "fs w' = (fs w)(resolve (join output_dir [FileName att]) \<mapsto> File (Content att))"
    "saves w' = saves w @ [(join output_dir [FileName att], fs w)]"
proof -
  have ff: "FileName_fault att = None"
    using assms by (auto simp: download_attachment_def split: option.splits)
  have pa: "passes_allow_list att allowed"
    using assms ff
    by (auto simp: download_attachment_def passes_allow_list_def Let_def split: if_splits)
  obtain r w1 where s: "SaveAsFile att (join output_dir [FileName att]) w = (r, w1)"
    by (cases "SaveAsFile att (join output_dir [FileName att]) w")
  have r: "r = Inr ()"
    using assms ff pa s
    by (cases r) (auto simp: download_attachment_def passes_allow_list_def Let_def)
  note sv = SaveAsFile_Inr[THEN iffD1, OF s[unfolded r]]
  show "FileName_fault att = None" by (rule ff)
  show "passes_allow_list att allowed" by (rule pa)
  show "SaveAsFile_fault att = None" "write_ok (fs w) (join output_dir [FileName att])"
    using sv by simp_all
  have res: "download_attachment att output_dir allowed w =
      (Inr (Some \<lparr>path = join output_dir [FileName att], name = FileName att,
                    uid = uuid4_source w1 (uuid4_count w1)\<rparr>),
       (logging_info (''Attachment '' @ FileName att @ '' saved'') w1)
         \<lparr>uuid4_count := Suc (uuid4_count w1)\<rparr>)"
    using ff pa s r
    by (auto simp: download_attachment_def passes_allow_list_def Let_def uuid4_def logging_info_def)
  show "d = \<lparr>path = join output_dir [FileName att], name = FileName att,
           uid = uuid4_source w (uuid4_count w)\<rparr>"
    using assms res sv by simp
  show "fs w' = (fs w)(resolve (join output_dir [FileName att]) \<mapsto> File (Content att))"
    using assms res sv by (auto simp: logging_info_def)
  show "saves w' = saves w @ [(join output_dir [FileName att], fs w)]"
    using assms res sv by (auto simp: logging_info_def)
qed

text \<open>C8. Whenever \<open>download_attachment\<close> returns a record, the path in the record exists in
  the file system of the world it returns, and the node there is a file holding the
  attachment's content: the record is built only after \<open>SaveAsFile\<close> has returned without an
  exception. (The model takes the mail client at its interface: a \<open>SaveAsFile\<close> call that
  returns normally has written the file.)\<close>

theorem download_attachment_record_path_exists:
  assumes "download_attachment att output_dir allowed_file_types w = (Inr (Some d), w')"
  shows "exists (fs w') (path d) \<and> fs w' (resolve (path d)) = Some (File (Content att))"
  using download_attachment_Some(5,6)[OF assms] by (simp add: exists_def)

theorem download_attachment_record_path_exists_witness:
  "fst (download_attachment report_pdf inbox_dir [''.pdf''] ready_world) =
     Inr (Some \<lparr>path = inbox_dir @ ''x.pdf'', name = ''x.pdf'', uid = ''uuid-0''\<rparr>)
   \<and> exists (fs (snd (download_attachment report_pdf inbox_dir [''.pdf''] ready_world)))
         (inbox_dir @ ''x.pdf'')"
proof -
  have e: "fst (download_attachment report_pdf inbox_dir [''.pdf''] ready_world) =
     Inr (Some \<lparr>path = inbox_dir @ ''x.pdf'', name = ''x.pdf'', uid = ''uuid-0''\<rparr>)"
    by code_simp
  have p: "download_attachment report_pdf inbox_dir [''.pdf''] ready_world =
     (Inr (Some \<lparr>path = inbox_dir @ ''x.pdf'', name = ''x.pdf'', uid = ''uuid-0''\<rparr>),
      snd (download_attachment report_pdf inbox_dir [''.pdf''] ready_world))"
    using e by (metis prod.collapse)
  show ?thesis using download_attachment_record_path_exists[OF p] e by simp
qed

subsection \<open>The allow-list (C7)\<close>

lemma download_attachment_blocked:
  assumes "FileName_fault att = None" "\<not> passes_allow_list att allowed"
  shows "download_attachment att output_dir allowed w = (Inr None, w)"
  using assms by (simp add: download_attachment_def passes_allow_list_def Let_def)

lemma download_attachment_attempt:
  assumes "FileName_fault att = None" "passes_allow_list att allowed"
  shows "saves (snd (download_attachment att output_dir allowed w)) =
           saves w @ [(join output_dir [FileName att], fs w)]"
    and "(\<exists>d. fst (download_attachment att output_dir allowed w) = Inr (Some d)) \<longleftrightarrow>
           fst (SaveAsFile att (join output_dir [FileName att]) w) = Inr ()"
    and "fst (download_attachment att output_dir allowed w) \<noteq> Inr None \<longleftrightarrow>
           fst (SaveAsFile att (join output_dir [FileName att]) w) = Inr ()"
proof -
  obtain r w1 where s: "SaveAsFile att (join output_dir [FileName att]) w = (r, w1)"
    by (cases "SaveAsFile att (join output_dir [FileName att]) w")
  have sv: "saves w1 = saves w @ [(join output_dir [FileName att], fs w)]"
    using s by (cases r) (auto simp: SaveAsFile_Inr dest: SaveAsFile_Inl)
  show "saves (snd (download_attachment att output_dir allowed w)) =
           saves w @ [(join output_dir [FileName att], fs w)]"
    using assms s sv
    by (cases r)
       (auto simp: download_attachment_def passes_allow_list_def Let_def uuid4_def
          logging_info_def logging_error_def)
  show "(\<exists>d. fst (download_attachment att output_dir allowed w) = Inr (Some d)) \<longleftrightarrow>
           fst (SaveAsFile att (join output_dir [FileName att]) w) = Inr ()"
    using assms s
    by (cases r)
       (auto simp: download_attachment_def passes_allow_list_def Let_def uuid4_def)
  show "fst (download_attachment att output_dir allowed w) \<noteq> Inr None \<longleftrightarrow>
           fst (SaveAsFile att (join output_dir [FileName att]) w) = Inr ()"
    using assms s
    by (cases r)
       (auto simp: download_attachment_def passes_allow_list_def Let_def uuid4_def)
qed

text \<open>C7, as stated, fails: with the allow-list \<open>[''.pdf'']\<close> an attachment named
  \<open>x.pdf\<close> whose save raises is a member of the list by its extension and still yields
  absent (line 298-300).\<close>

theorem allowed_extension_yet_absent:
  "snd (splitext (FileName broken_pdf)) \<in> set [''.pdf'']
   \<and> download_attachment broken_pdf inbox_dir [''.pdf''] ready_world =
       (Inr None,
        logging_error (''Error saving attachment x.pdf: The operation failed.'')
          (ready_world\<lparr>saves := [(inbox_dir @ ''x.pdf'', fs ready_world)]\<rparr>))"
proof -
  have a: "join inbox_dir [''x.pdf''] = inbox_dir @ ''x.pdf''" by code_simp
  have b: "snd (splitext ''x.pdf'') = ''.pdf''" by code_simp
  have c: "saves ready_world = []" by (simp add: ready_world_def sample_world_def)
  show ?thesis
    using a b c
    by (simp add: download_attachment_def broken_pdf_def SaveAsFile_def Let_def)
qed

lemma download_attachment_fault:
  "FileName_fault att = Some e \<Longrightarrow> download_attachment att output_dir allowed w = (Inl e, w)"
  by (simp add: download_attachment_def)

text \<open>C7, amended. Reading the file name of the attachment comes first, outside the \<open>try\<close>
  (line 284): when it raises, \<open>download_attachment\<close> raises that exception and attempts no
  save. When the file name can be read, the attachment passes the allow-list if
  \<open>allowed_file_types\<close> is empty, and otherwise exactly when the extension of its file name
  (the second component of \<open>os.path.splitext\<close>, with its leading dot) is a member. One that
  does not pass is left alone: no save is attempted, nothing changes, the result is absent.
  For one that passes, exactly one save is attempted, at \<open>join output_dir [FileName]\<close>; the
  result is a record exactly when that save returns without an exception, and absent
  otherwise.\<close>

theorem download_attachment_allow_list:
  "(\<forall>e. FileName_fault att = Some e \<longrightarrow>
        download_attachment att output_dir allowed_file_types w = (Inl e, w))
   \<and> (FileName_fault att = None \<longrightarrow>
        (allowed_file_types = [] \<longrightarrow> passes_allow_list att allowed_file_types)
      \<and> (allowed_file_types \<noteq> [] \<longrightarrow>
           (passes_allow_list att allowed_file_types
              \<longleftrightarrow> snd (splitext (FileName att)) \<in> set allowed_file_types))
      \<and> (\<not> passes_allow_list att allowed_file_types \<longrightarrow>
           download_attachment att output_dir allowed_file_types w = (Inr None, w))
      \<and> (passes_allow_list att allowed_file_types \<longrightarrow>
           saves (snd (download_attachment att output_dir allowed_file_types w)) =
             saves w @ [(join output_dir [FileName att], fs w)]
           \<and> ((\<exists>d. fst (download_attachment att output_dir allowed_file_types w) = Inr (Some d))
                \<longleftrightarrow> fst (SaveAsFile att (join output_dir [FileName att]) w) = Inr ())
           \<and> (fst (download_attachment att output_dir allowed_file_types w) = Inr None
                \<longleftrightarrow> fst (SaveAsFile att (join output_dir [FileName att]) w) \<noteq> Inr ())))"
proof -
  have a: "\<forall>e. FileName_fault att = Some e \<longrightarrow>
        download_attachment att output_dir allowed_file_types w = (Inl e, w)"
    by (simp add: download_attachment_fault)
  have b: "FileName_fault att = None \<longrightarrow>
        (allowed_file_types = [] \<longrightarrow> passes_allow_list att allowed_file_types)
      \<and> (allowed_file_types \<noteq> [] \<longrightarrow>
           (passes_allow_list att allowed_file_types
              \<longleftrightarrow> snd (splitext (FileName att)) \<in> set allowed_file_types))
      \<and> (\<not> passes_allow_list att allowed_file_types \<longrightarrow>
           download_attachment att output_dir allowed_file_types w = (Inr None, w))
      \<and> (passes_allow_list att allowed_file_types \<longrightarrow>
           saves (snd (download_attachment att output_dir allowed_file_types w)) =
             saves w @ [(join output_dir [FileName att], fs w)]
           \<and> ((\<exists>d. fst (download_attachment att output_dir allowed_file_types w) = Inr (Some d))
                \<longleftrightarrow> fst (SaveAsFile att (join output_dir [FileName att]) w) = Inr ())
           \<and> (fst (download_attachment att output_dir allowed_file_types w) = Inr None
                \<longleftrightarrow> fst (SaveAsFile att (join output_dir [FileName att]) w) \<noteq> Inr ()))"
    using download_attachment_blocked[of att allowed_file_types output_dir w]
      download_attachment_attempt[of att allowed_file_types output_dir w]
    by (auto simp: passes_allow_list_def)
  show ?thesis using a b by (rule conjI)
qed

definition unnamed_pdf :: attachment where
  "unnamed_pdf = \<lparr>FileName = ''x.pdf'', Content = ''%PDF'',
                   FileName_fault = Some (Exn com_error ''The attachment is not available.''),
                   SaveAsFile_fault = None\<rparr>"

theorem download_attachment_allow_list_witness:
  "FileName_fault notes_docx = None \<and> FileName_fault report_pdf = None
   \<and> download_attachment notes_docx inbox_dir [''.pdf''] ready_world = (Inr None, ready_world)
   \<and> (\<exists>d. fst (download_attachment report_pdf inbox_dir [''.pdf''] ready_world) = Inr (Some d))
   \<and> (\<exists>d. fst (download_attachment notes_docx inbox_dir [] ready_world) = Inr (Some d))
   \<and> download_attachment unnamed_pdf inbox_dir [] ready_world =
       (Inl (Exn com_error ''The attachment is not available.''), ready_world)"
proof -
  have f1: "FileName_fault notes_docx = None" by (simp add: notes_docx_def)
  have f2: "FileName_fault report_pdf = None" by (simp add: report_pdf_def)
  have f3: "FileName_fault unnamed_pdf = Some (Exn com_error ''The attachment is not available.'')"
    by (simp add: unnamed_pdf_def)
  have n1: "\<not> passes_allow_list notes_docx [''.pdf'']" by code_simp
  have p2: "passes_allow_list report_pdf [''.pdf'']" by code_simp
  have p3: "passes_allow_list notes_docx []" by code_simp
  have s2: "fst (SaveAsFile report_pdf (join inbox_dir [FileName report_pdf]) ready_world) = Inr ()"
    by code_simp
  have s3: "fst (SaveAsFile notes_docx (join inbox_dir [FileName notes_docx]) ready_world) = Inr ()"
    by code_simp
  show ?thesis
    using download_attachment_allow_list[of notes_docx inbox_dir "[''.pdf'']" ready_world]
      download_attachment_allow_list[of report_pdf inbox_dir "[''.pdf'']" ready_world]
      download_attachment_allow_list[of notes_docx inbox_dir "[]" ready_world]
      download_attachment_allow_list[of unnamed_pdf inbox_dir "[]" ready_world]
      f1 f2 f3 n1 p2 p3 s2 s3
    by blast
qed

section \<open>The record builder (C5)\<close>


definition same_dirs :: "filesystem \<Rightarrow> filesystem \<Rightarrow> bool" where
  "same_dirs f g = (\<forall>p. (f p = Some Dir) = (g p = Some Dir))"

lemma same_dirs_refl: "same_dirs f f"
  by (simp add: same_dirs_def)

lemma same_dirs_trans: "same_dirs f g \<Longrightarrow> same_dirs g h \<Longrightarrow> same_dirs f h"
  by (simp add: same_dirs_def)



lemma same_dirs_write: "write_ok f target \<Longrightarrow> same_dirs f (f(resolve target \<mapsto> File c))"
  by (auto simp: same_dirs_def write_ok_def)


lemma download_attachment_same_dirs:
  "same_dirs (fs w) (fs (snd (download_attachment att output_dir allowed w)))"
proof (cases "FileName_fault att = None \<and> passes_allow_list att allowed")
  case True
  obtain r w1 where s: "SaveAsFile att (join output_dir [FileName att]) w = (r, w1)"
    by (cases "SaveAsFile att (join output_dir [FileName att]) w")
  show ?thesis
  proof (cases r)
    case (Inl e)
    then show ?thesis
      using True s SaveAsFile_Inl[of att "join output_dir [FileName att]" w e w1]
      by (auto simp: download_attachment_def passes_allow_list_def Let_def logging_error_def
            same_dirs_refl)
  next
    case (Inr u)
    then show ?thesis
      using True s SaveAsFile_Inr[of att "join output_dir [FileName att]" w u w1]
        same_dirs_write[of "fs w" "join output_dir [FileName att]" "Content att"]
      by (auto simp: download_attachment_def passes_allow_list_def Let_def logging_info_def
            uuid4_def)
  qed
next
  case False
  then show ?thesis
    using download_attachment_blocked[of att allowed output_dir w]
    by (auto simp: download_attachment_def same_dirs_refl split: option.splits)
qed








section \<open>The scan: destination directory, early returns, saved files (C3, C6, C10)\<close>

subsection \<open>Paths\<close>

text \<open>The shapes of path the statements below speak about: a path that starts with a drive
  letter, a colon and a separator; a path with neither drive nor leading separator; a bare
  file name, with neither separator nor colon, which is not \<open>.\<close> or \<open>..\<close> either; a path none of whose components is \<open>..\<close>.\<close>

definition drive_absolute :: "string \<Rightarrow> bool" where
  "drive_absolute p = (length p \<ge> 3 \<and> p ! 0 \<notin> set seps \<and> p ! 1 = CHR '':'' \<and> p ! 2 \<in> set seps)"

definition relative_path :: "string \<Rightarrow> bool" where
  "relative_path p = (p = [] \<or> (hd p \<notin> set seps \<and> (length p \<ge> 2 \<longrightarrow> p ! 1 \<noteq> CHR '':'')))"

definition plain_name :: "string \<Rightarrow> bool" where
  "plain_name n = (n \<noteq> [] \<and> set n \<inter> set seps = {} \<and> CHR '':'' \<notin> set n \<and>
                   n \<noteq> ''.'' \<and> n \<noteq> ''..'')"

definition dotdot_free :: "string \<Rightarrow> bool" where
  "dotdot_free p = (''..'' \<notin> set (components p))"


lemma splitdrive_drive_absolute:
  assumes "drive_absolute p"
  shows "splitdrive p = (take 2 p, drop 2 p)"
proof -
  obtain a b c r where p: "p = a # b # c # r"
    using assms by (cases p; cases "tl p"; cases "tl (tl p)") (auto simp: drive_absolute_def)
  have "b = CHR '':''" using assms p by (simp add: drive_absolute_def)
  then show ?thesis using p by (simp add: splitdrive_def Let_def sep_def altsep_def)
qed

lemma splitdrive_relative:
  assumes "relative_path p"
  shows "splitdrive p = ([], p)"
proof (cases "length p \<ge> 2")
  case False
  then show ?thesis by (simp add: splitdrive_def)
next
  case True
  then obtain a b r where p: "p = a # b # r" by (cases p; cases "tl p") auto
  have "a \<notin> set seps" "b \<noteq> CHR '':''" using assms p by (auto simp: relative_path_def)
  then show ?thesis using p by (auto simp: splitdrive_def Let_def sep_def altsep_def seps_def)
qed

lemma join_drive_relative:
  assumes "drive_absolute a" "relative_path b"
  shows "join a [b] = (if last a \<in> set seps then a @ b else a @ [sep] @ b)"
proof -
  define dr where "dr = take 2 a"
  define rp where "rp = drop 2 a"
  have a: "a = dr @ rp" by (simp add: dr_def rp_def)
  have ne: "rp \<noteq> []" "hd rp \<in> set seps"
    using assms(1) by (auto simp: rp_def drive_absolute_def hd_drop_conv_nth)
  have la: "last a = last rp" using a ne by simp
  have nb: "\<not> (b \<noteq> [] \<and> hd b \<in> set seps)" using assms(2) by (auto simp: relative_path_def)
  have sa: "splitdrive a = (dr, rp)"
    using splitdrive_drive_absolute[OF assms(1)] by (simp add: dr_def rp_def)
  have jl: "join_loop dr rp [b] = (dr, (if last rp \<notin> set seps then rp @ [sep] else rp) @ b)"
    using ne nb by (simp add: splitdrive_relative[OF assms(2)])
  have hd: "hd ((if last rp \<notin> set seps then rp @ [sep] else rp) @ b) \<in> set seps"
    using ne by auto
  have "join a [b] = dr @ (if last rp \<notin> set seps then rp @ [sep] else rp) @ b"
    unfolding join_def sa prod.case jl using hd ne by auto
  then show ?thesis using a la by auto
qed

lemma join_drive_relative_absolute:
  assumes "drive_absolute a" "relative_path b"
  shows "drive_absolute (join a [b])"
  using assms(1) unfolding join_drive_relative[OF assms]
  by (auto simp: drive_absolute_def nth_append)

lemma join_absolute:
  assumes "drive_absolute b"
  shows "join a [b] = b"
proof -
  have ne: "drop 2 b \<noteq> []" "hd (drop 2 b) \<in> set seps" "take 2 b \<noteq> []"
    using assms by (auto simp: drive_absolute_def hd_drop_conv_nth)
  obtain d p where s: "splitdrive a = (d, p)" by (cases "splitdrive a")
  show ?thesis
    using ne s by (simp add: join_def splitdrive_drive_absolute[OF assms])
qed

lemma split_components_sep:
  "c \<in> set seps \<Longrightarrow>
     split_components cur (a @ c # b) = split_components cur a @ split_components [] b"
  by (induction a arbitrary: cur) auto

lemma components_sep: "c \<in> set seps \<Longrightarrow> components (a @ c # b) = components a @ components b"
  by (simp add: components_def split_components_sep)

lemma components_trailing_sep: "c \<in> set seps \<Longrightarrow> components (a @ [c]) = components a"
  using components_sep[of c a "[]"] by (simp add: components_def)

lemma components_append:
  assumes "a = [] \<or> last a \<in> set seps"
  shows "components (a @ b) = components a @ components b"
proof (cases "a = []")
  case True
  then show ?thesis by (simp add: components_def)
next
  case False
  then obtain a' c where a: "a = a' @ [c]" by (metis rev_exhaust)
  then have c: "c \<in> set seps" using assms by simp
  show ?thesis
    using components_sep[OF c, of a' b] components_trailing_sep[OF c, of a'] a by simp
qed

lemma norm_components_append:
  "norm_components acc (xs @ ys) = norm_components (norm_components acc xs) ys"
  by (induction xs arbitrary: acc) auto

lemma norm_components_dotdot_free:
  "''..'' \<notin> set cs \<Longrightarrow> norm_components acc cs = acc @ filter (\<lambda>c. c \<noteq> ''.'') cs"
  by (induction cs arbitrary: acc) auto

lemma resolve_snoc_sep:
  "c \<in> set seps \<Longrightarrow> resolve (a @ c # b) = norm_components (resolve a) (components b)"
  by (simp add: resolve_def components_sep norm_components_append)

lemma resolve_trailing_sep: "c \<in> set seps \<Longrightarrow> resolve (a @ [c]) = resolve a"
  by (simp add: resolve_def components_trailing_sep)

lemma resolve_append:
  assumes "a = [] \<or> last a \<in> set seps"
  shows "resolve (a @ b) = norm_components (resolve a) (components b)"
  using components_append[OF assms] by (simp add: resolve_def norm_components_append)

lemma split_components_no_sep:
  "set n \<inter> set seps = {} \<Longrightarrow> cur @ n \<noteq> [] \<Longrightarrow> split_components cur n = [cur @ n]"
  by (induction n arbitrary: cur) auto

lemma components_plain: "plain_name n \<Longrightarrow> components n = [n]"
  using split_components_no_sep[of n "[]"] by (simp add: components_def plain_name_def)

lemma resolve_plain: "plain_name n \<Longrightarrow> resolve n = [n]"
  using components_plain[of n] by (simp add: resolve_def plain_name_def)

subsection \<open>The file system along a scan\<close>

text \<open>What \<open>os.makedirs\<close> does when it returns: the directory exists, and the file system has
  only grown, by directories.\<close>

definition grows :: "filesystem \<Rightarrow> filesystem \<Rightarrow> bool" where
  "grows f f' = (\<forall>p. f' p \<noteq> f p \<longrightarrow> f p = None \<and> f' p = Some Dir)"

lemma grows_refl: "grows f f"
  by (simp add: grows_def)

lemma grows_keep: "grows f f' \<Longrightarrow> f p \<noteq> None \<Longrightarrow> f' p \<noteq> None"
  unfolding grows_def by metis

lemma grows_trans: "grows f g \<Longrightarrow> grows g h \<Longrightarrow> grows f h"
  unfolding grows_def by metis

lemma FileExistsError_neq: "FileExistsError \<noteq> FileNotFoundError"
  by (simp add: FileExistsError_def FileNotFoundError_def)

lemma mkdir_exist_ok_Inr:
  "mkdir_exist_ok cs f = Inr f' \<Longrightarrow> grows f f' \<and> f' cs = Some Dir"
  by (auto simp: mkdir_exist_ok_def mkdir_def grows_def split: if_splits)

lemma mkdir_exist_ok_Inl:
  "mkdir_exist_ok cs f = Inl FileExistsError \<Longrightarrow> f cs \<noteq> None \<and> f cs \<noteq> Some Dir"
  using FileExistsError_neq
  by (auto simp: mkdir_exist_ok_def mkdir_def split: if_splits)

lemma makedirs_components_result:
  "(\<forall>f'. makedirs_components cs f = Inr f' \<longrightarrow> grows f f' \<and> f' (norm_components [] cs) = Some Dir)
   \<and> (makedirs_components cs f = Inl FileExistsError \<longrightarrow> f (norm_components [] cs) \<noteq> None)"
proof (induction cs f rule: makedirs_components.induct)
  case (1 cs f)
  show ?case
  proof (cases "butlast cs \<noteq> [] \<and> f (norm_components [] (butlast cs)) = None")
    case False
    then have e: "makedirs_components cs f = mkdir_exist_ok (norm_components [] cs) f"
      by (subst makedirs_components.simps) auto
    show ?thesis
      unfolding e using mkdir_exist_ok_Inr[of "norm_components [] cs" f]
        mkdir_exist_ok_Inl[of "norm_components [] cs" f] by blast
  next
    case True
    note ih = 1[OF True]
    have cs: "cs = butlast cs @ [last cs]" using True by (cases cs rule: rev_cases) auto
    have dot: "last cs = ''.'' \<Longrightarrow> norm_components [] cs = norm_components [] (butlast cs)"
      using norm_components_append[of "[]" "butlast cs" "[last cs]"] cs by simp
    show ?thesis
    proof (cases "makedirs_components (butlast cs) f")
      case (Inl e)
      have ne: "e \<noteq> FileExistsError" using ih Inl True by auto
      then have "makedirs_components cs f = Inl e"
        using True Inl by (subst makedirs_components.simps) auto
      then show ?thesis using ne by simp
    next
      case (Inr f1)
      have g1: "grows f f1" and d1: "f1 (norm_components [] (butlast cs)) = Some Dir"
        using ih Inr by auto
      show ?thesis
      proof (cases "last cs = ''.''")
        case t: True
        have "makedirs_components cs f = Inr f1"
          using True Inr t by (subst makedirs_components.simps) auto
        then show ?thesis using g1 d1 dot[OF t] by simp
      next
        case t: False
        have e: "makedirs_components cs f = mkdir_exist_ok (norm_components [] cs) f1"
          using True Inr t by (subst makedirs_components.simps) auto
        have a: "\<forall>f'. mkdir_exist_ok (norm_components [] cs) f1 = Inr f'
                  \<longrightarrow> grows f f' \<and> f' (norm_components [] cs) = Some Dir"
          using mkdir_exist_ok_Inr[of "norm_components [] cs" f1] g1 grows_trans by blast
        have b: "mkdir_exist_ok (norm_components [] cs) f1 = Inl FileExistsError
                  \<longrightarrow> f (norm_components [] cs) \<noteq> None"
          using mkdir_exist_ok_Inl[of "norm_components [] cs" f1] g1
          unfolding grows_def by metis
        show ?thesis unfolding e using a b by blast
      qed
    qed
  qed
qed

text \<open>A file system is well formed when whatever exists lies in directories all the way
  up.\<close>

definition well_formed :: "filesystem \<Rightarrow> bool" where
  "well_formed f = (\<forall>p. f p \<noteq> None \<longrightarrow> (\<forall>k. 0 < k \<and> k < length p \<longrightarrow> f (take k p) = Some Dir))"

lemma well_formed_mkdir:
  assumes "well_formed f" "mkdir_exist_ok cs f = Inr f'"
  shows "well_formed f'"
proof (cases "f cs = None")
  case False
  then have "f' = f" using assms(2) by (auto simp: mkdir_exist_ok_def mkdir_def split: if_splits)
  then show ?thesis using assms(1) by simp
next
  case True
  then have f': "f' = f(cs \<mapsto> Dir)" and par: "butlast cs = [] \<or> f (butlast cs) = Some Dir"
    using assms(2) by (auto simp: mkdir_exist_ok_def mkdir_def split: if_splits)
  show ?thesis
    unfolding well_formed_def
  proof (intro allI impI)
    fix p k assume p: "f' p \<noteq> None" and k: "0 < k \<and> k < length p"
    have "f (take k p) = Some Dir"
    proof (cases "p = cs")
      case False
      then show ?thesis using p k f' assms(1) by (auto simp: well_formed_def)
    next
      case pc: True
      have ne: "butlast cs \<noteq> []" using k pc by (cases cs rule: rev_cases) auto
      then have b: "f (butlast cs) = Some Dir" using par by simp
      show ?thesis
      proof (cases "k = length (butlast cs)")
        case True
        then have "take k p = butlast cs" using pc by (simp add: butlast_conv_take)
        then show ?thesis using b by simp
      next
        case False
        then have kk: "0 < k \<and> k < length (butlast cs)" using k pc by auto
        have "take k (butlast cs) = take k cs" using kk by (intro take_butlast) auto
        then have "take k p = take k (butlast cs)" using pc by simp
        then show ?thesis using assms(1) b kk unfolding well_formed_def by (metis option.distinct(1))
      qed
    qed
    then show "f' (take k p) = Some Dir" using f' by simp
  qed
qed

lemma well_formed_makedirs_components:
  "well_formed f \<Longrightarrow> makedirs_components cs f = Inr f' \<Longrightarrow> well_formed f'"
proof (induction cs f arbitrary: f' rule: makedirs_components.induct)
  case (1 cs f)
  show ?case
  proof (cases "butlast cs \<noteq> [] \<and> f (norm_components [] (butlast cs)) = None")
    case False
    then have "makedirs_components cs f = mkdir_exist_ok (norm_components [] cs) f"
      by (subst makedirs_components.simps) auto
    then show ?thesis using 1(2,3) well_formed_mkdir by metis
  next
    case True
    show ?thesis
    proof (cases "makedirs_components (butlast cs) f")
      case (Inl e)
      have "e = FileExistsError"
        using True Inl 1(3) by (subst (asm) makedirs_components.simps) (auto split: if_splits)
      then have "f (norm_components [] (butlast cs)) \<noteq> None"
        using makedirs_components_result[of "butlast cs" f] Inl by simp
      then show ?thesis using True by simp
    next
      case (Inr f1)
      have w1: "well_formed f1" using 1(1)[OF True 1(2) Inr] .
      show ?thesis
      proof (cases "last cs = ''.''")
        case t: True
        have "makedirs_components cs f = Inr f1"
          using True Inr t by (subst makedirs_components.simps) auto
        then show ?thesis using w1 1(3) by simp
      next
        case t: False
        have "makedirs_components cs f = mkdir_exist_ok (norm_components [] cs) f1"
          using True Inr t by (subst makedirs_components.simps) auto
        then show ?thesis using w1 1(3) well_formed_mkdir by metis
      qed
    qed
  qed
qed

lemma makedirs_Inr:
  assumes "makedirs target f = Inr f'"
  shows "isdir f' target" and "grows f f'" and "well_formed f \<Longrightarrow> well_formed f'"
  using assms makedirs_components_result[of "components target" f]
    well_formed_makedirs_components[of f "components target" f']
  by (auto simp: makedirs_def isdir_def resolve_def)


text \<open>The destination directory of a scan, as \<open>create_folder\<close> computes it, and the part of
  \<open>get_emails\<close> that resolves and ensures it (lines 168-172).\<close>

definition folder_path :: "string \<Rightarrow> world \<Rightarrow> string" where
  "folder_path output_dir w = join (join (MyDocuments w) [output_dir]) [[]]"

definition ensure_folder :: "string \<Rightarrow> world \<Rightarrow> string result" where
  "ensure_folder output_dir w =
     and_then (create_folder output_dir w) (\<lambda>folderPath w.
       if \<not> isdir (fs w) folderPath then
         (case makedirs folderPath (fs w) of
            Inl e \<Rightarrow> (Inl e, w)
          | Inr f \<Rightarrow> (Inr folderPath, logging_info (''Created directory: '' @ folderPath) (w\<lparr>fs := f\<rparr>)))
       else (Inr folderPath, w))"

definition validate_and_scan ::
  "string \<Rightarrow> string \<Rightarrow> string \<Rightarrow> string \<Rightarrow> string list option \<Rightarrow> bool \<Rightarrow> datetime option
   \<Rightarrow> world \<Rightarrow> email_detail list result" where
  "validate_and_scan email subj folder_name folderPath allowed_file_types include_read since w =
     (if \<not> is_valid_email email then
        (Inr [], logging_error (''Invalid email addresses provided: '' @ email) w)
      else
        (case scan_folder subj folder_name folderPath allowed_file_types include_read since [] w of
           (Inr Returned, emails, w1) \<Rightarrow> (Inr emails, w1)
         | (Inr Completed, emails, w1) \<Rightarrow>
             (Inr emails, logging_info (''Processed '' @ str_nat (length emails) @ '' emails.'') w1)
         | (Inl e, emails, w1) \<Rightarrow>
             (Inr emails,
              logging_info (''Processed '' @ str_nat (length emails) @ '' emails.'')
                (logging_error (''Error when processing email messages: '' @ str e) w1))))"

lemma get_emails_split:
  "get_emails email subj folder_name output_dir allowed_file_types include_read since w =
     and_then (ensure_folder output_dir w) (\<lambda>folderPath w.
       validate_and_scan email subj folder_name folderPath allowed_file_types include_read since w)"
proof -
  obtain r w0 where c: "create_folder output_dir w = (r, w0)"
    by (cases "create_folder output_dir w")
  show ?thesis
  proof (cases r)
    case (Inl e)
    then show ?thesis
      using c by (simp add: get_emails_def ensure_folder_def and_then_def)
  next
    case (Inr folderPath)
    show ?thesis
    proof (cases "isdir (fs w0) folderPath")
      case True
      then show ?thesis
        using c Inr
        by (simp add: get_emails_def ensure_folder_def and_then_def validate_and_scan_def)
    next
      case False
      then show ?thesis
        using c Inr
        by (cases "makedirs folderPath (fs w0)")
           (simp_all add: get_emails_def ensure_folder_def and_then_def validate_and_scan_def)
    qed
  qed
qed

lemma create_folder_result:
  "create_folder output_dir w =
     (case com_fault w Dispatch_WScript_Shell of
        Some e \<Rightarrow> (Inl e, w)
      | None \<Rightarrow> (case com_fault w SpecialFolders of
                   Some e \<Rightarrow> (Inl e, w)
                 | None \<Rightarrow> (Inr (folder_path output_dir w), w)))"
  by (simp add: create_folder_def and_then_def com_def folder_path_def Let_def split: option.splits)

lemma create_folder_Inr:
  "create_folder output_dir w = (Inr folderPath, w0) \<Longrightarrow> folderPath = folder_path output_dir w \<and> w0 = w"
  unfolding create_folder_result by (auto split: option.splits)

lemma create_folder_world: "snd (create_folder output_dir w) = w"
  unfolding create_folder_result by (auto split: option.splits)

lemma ensure_folder_Inr:
  assumes "ensure_folder output_dir w = (Inr folderPath, w1)"
  shows "folderPath = folder_path output_dir w"
    and "isdir (fs w1) folderPath"
    and "well_formed (fs w) \<Longrightarrow> well_formed (fs w1)"
    and "saves w1 = saves w" and "Folders w1 = Folders w" and "com_fault w1 = com_fault w"
    and "\<forall>p. fs w p \<noteq> None \<longrightarrow> fs w1 p \<noteq> None"
    and "Restrict w1 = Restrict w" and "Sort w1 = Sort w"
proof -
  obtain r w0 where c: "create_folder output_dir w = (r, w0)"
    by (cases "create_folder output_dir w")
  have r: "r = Inr folderPath"
    using assms c by (cases r) (auto simp: ensure_folder_def and_then_def split: if_splits sum.splits)
  have fp: "folderPath = folder_path output_dir w" and w0: "w0 = w"
    using create_folder_Inr[OF c[unfolded r]] by simp_all
  show "folderPath = folder_path output_dir w" by (rule fp)
  have body: "(if \<not> isdir (fs w) folderPath then
         (case makedirs folderPath (fs w) of
            Inl e \<Rightarrow> (Inl e, w)
          | Inr f \<Rightarrow> (Inr folderPath, logging_info (''Created directory: '' @ folderPath) (w\<lparr>fs := f\<rparr>)))
       else (Inr folderPath, w)) = (Inr folderPath, w1)"
    using assms c r w0 by (simp add: ensure_folder_def and_then_def)
  show "isdir (fs w1) folderPath"
    using body makedirs_Inr(1)[of folderPath "fs w"]
    by (auto simp: logging_info_def split: if_splits sum.splits)
  show "well_formed (fs w) \<Longrightarrow> well_formed (fs w1)"
    using body makedirs_Inr(3)[of folderPath "fs w"]
    by (auto simp: logging_info_def split: if_splits sum.splits)
  show "saves w1 = saves w" "Folders w1 = Folders w" "com_fault w1 = com_fault w"
    "Restrict w1 = Restrict w" "Sort w1 = Sort w"
    using body by (auto simp: logging_info_def split: if_splits sum.splits)
  show "\<forall>p. fs w p \<noteq> None \<longrightarrow> fs w1 p \<noteq> None"
    using body makedirs_Inr(2)[of folderPath "fs w", THEN grows_keep]
    by (auto simp: logging_info_def split: if_splits sum.splits)
qed

text \<open>The messages the loop of \<open>get_emails\<close> runs over (lines 184-204), and the attachments
  of those it hands to \<open>process_email\<close>.\<close>

definition found_messages :: "string \<Rightarrow> string \<Rightarrow> datetime option \<Rightarrow> world \<Rightarrow> message list" where
  "found_messages subj folder_name since w =
     (case List.find (\<lambda>folder. folder_Name folder = folder_name) (Folders w) of
        None \<Rightarrow> []
      | Some found_folder \<Rightarrow>
          Sort w (case since of
                    None \<Rightarrow> Restrict w (subject_query subj) (Items found_folder)
                  | Some d \<Rightarrow>
                      Restrict w (date_query d)
                        (Restrict w (subject_query subj) (Items found_folder))))"

definition attachments_of :: "message list \<Rightarrow> attachment set" where
  "attachments_of messages = (\<Union>msg \<in> set messages. set (Attachments msg))"

definition scanned_attachments ::
  "string \<Rightarrow> string \<Rightarrow> bool \<Rightarrow> datetime option \<Rightarrow> world \<Rightarrow> attachment set" where
  "scanned_attachments subj folder_name include_read since w =
     attachments_of (filter (\<lambda>msg. include_read \<or> UnRead msg) (found_messages subj folder_name since w))"

text \<open>What a run of record building does to the file system and to the trace of save
  calls: directories stay as they are, nothing that exists disappears, and every save call
  the run adds was made at a path \<open>join folderPath [FileName att]\<close>, for one of the
  attachments \<open>att\<close> at hand, in a file system with the same directories as at the
  start.\<close>

definition saved_under :: "attachment set \<Rightarrow> string \<Rightarrow> world \<Rightarrow> world \<Rightarrow> bool" where
  "saved_under A folderPath w w' =
     (same_dirs (fs w) (fs w') \<and> (\<forall>p. fs w p \<noteq> None \<longrightarrow> fs w' p \<noteq> None) \<and>
      (\<exists>new. saves w' = saves w @ new \<and>
         (\<forall>(target, f) \<in> set new.
            same_dirs (fs w) f \<and> (\<exists>att \<in> A. target = join folderPath [FileName att]))))"

lemma saved_under_refl: "saved_under A fp w w"
  by (simp add: saved_under_def same_dirs_refl)

lemma saved_under_mono: "saved_under A fp w w' \<Longrightarrow> A \<subseteq> B \<Longrightarrow> saved_under B fp w w'"
  unfolding saved_under_def by fast

lemma same_dirs_sym: "same_dirs f g \<Longrightarrow> same_dirs g f"
  by (simp add: same_dirs_def)

lemma saved_under_trans:
  assumes "saved_under A fp w w1" "saved_under A fp w1 w2"
  shows "saved_under A fp w w2"
proof -
  obtain n1 where n1: "saves w1 = saves w @ n1"
    "\<forall>(target, f) \<in> set n1. same_dirs (fs w) f \<and> (\<exists>att \<in> A. target = join fp [FileName att])"
    using assms(1) by (auto simp: saved_under_def)
  obtain n2 where n2: "saves w2 = saves w1 @ n2"
    "\<forall>(target, f) \<in> set n2. same_dirs (fs w1) f \<and> (\<exists>att \<in> A. target = join fp [FileName att])"
    using assms(2) by (auto simp: saved_under_def)
  have sd: "same_dirs (fs w) (fs w1)" "same_dirs (fs w1) (fs w2)"
    using assms by (auto simp: saved_under_def)
  have "\<forall>(target, f) \<in> set (n1 @ n2). same_dirs (fs w) f \<and> (\<exists>att \<in> A. target = join fp [FileName att])"
    using n1(2) n2(2) sd(1) by (auto intro: same_dirs_trans)
  moreover have "saves w2 = saves w @ (n1 @ n2)" using n1(1) n2(1) by simp
  moreover have "same_dirs (fs w) (fs w2)" using sd by (rule same_dirs_trans)
  moreover have "\<forall>p. fs w p \<noteq> None \<longrightarrow> fs w2 p \<noteq> None"
    using assms by (simp add: saved_under_def)
  ultimately show ?thesis unfolding saved_under_def by blast
qed

lemma saved_under_log:
  "saved_under A fp w w1 \<Longrightarrow> saved_under A fp w (w1\<lparr>log_records := l\<rparr>)"
  by (simp add: saved_under_def)

lemma download_attachment_saved_under:
  "saved_under {att} fp w (snd (download_attachment att fp allowed w))"
proof (cases "FileName_fault att = None \<and> passes_allow_list att allowed")
  case True
  have sd: "same_dirs (fs w) (fs (snd (download_attachment att fp allowed w)))"
    by (rule download_attachment_same_dirs)
  have sv: "saves (snd (download_attachment att fp allowed w)) = saves w @ [(join fp [FileName att], fs w)]"
    using download_attachment_attempt(1)[of att allowed fp w] True by simp
  have keep: "\<forall>p. fs w p \<noteq> None \<longrightarrow> fs (snd (download_attachment att fp allowed w)) p \<noteq> None"
  proof (cases "\<exists>d. fst (download_attachment att fp allowed w) = Inr (Some d)")
    case True
    then obtain d where "download_attachment att fp allowed w = (Inr (Some d), snd (download_attachment att fp allowed w))"
      by (metis prod.collapse)
    from download_attachment_Some(6)[OF this] show ?thesis by simp
  next
    case False
    obtain r w1 where s: "SaveAsFile att (join fp [FileName att]) w = (r, w1)"
      by (cases "SaveAsFile att (join fp [FileName att]) w")
    have "\<exists>e. r = Inl e"
      using False download_attachment_attempt(2)[of att allowed fp w] True s by (cases r) auto
    then obtain e where e: "r = Inl e" by blast
    have "fs w1 = fs w" using SaveAsFile_Inl[OF s[unfolded e]] by simp
    then show ?thesis
      using True s e
      by (simp add: download_attachment_def passes_allow_list_def Let_def logging_error_def)
  qed
  show ?thesis
    unfolding saved_under_def using sd sv keep by (auto simp: same_dirs_refl)
next
  case False
  then have "snd (download_attachment att fp allowed w) = w"
    using download_attachment_blocked[of att allowed fp w]
    by (auto simp: download_attachment_def split: option.splits)
  then show ?thesis by (simp add: saved_under_refl)
qed

lemma collect_attachments_saved_under:
  "collect_attachments atts fp allowed acc w = (details, w')
   \<Longrightarrow> saved_under (set atts) fp w w'
       \<and> (\<forall>d \<in> set details. d \<in> set acc \<or>
              (path d = join fp [name d] \<and> fs w' (resolve (path d)) \<noteq> None \<and>
               (\<exists>att \<in> set atts. name d = FileName att)))"
proof (induction atts arbitrary: acc w)
  case Nil
  then show ?case by (auto simp: saved_under_refl)
next
  case (Cons att atts)
  obtain r w1 where d: "download_attachment att fp allowed w = (r, w1)"
    by (cases "download_attachment att fp allowed w")
  have su: "saved_under (set (att # atts)) fp w w1"
    using download_attachment_saved_under[of att fp w allowed] d
    by (auto intro: saved_under_mono)
  have ih: "collect_attachments atts fp allowed acc' w2 = (details, w')
     \<Longrightarrow> saved_under (set (att # atts)) fp w2 w'
       \<and> (\<forall>d \<in> set details. d \<in> set acc' \<or>
              (path d = join fp [name d] \<and> fs w' (resolve (path d)) \<noteq> None \<and>
               (\<exists>a \<in> set (att # atts). name d = FileName a)))" for acc' w2
    using Cons.IH[of acc' w2] by (auto intro: saved_under_mono)
  show ?case
  proof (cases r)
    case (Inl e)
    have c: "collect_attachments atts fp allowed acc
            (logging_error (''Error saving attachment: '' @ str e) w1) = (details, w')"
      using Cons.prems d Inl by simp
    have "saved_under (set (att # atts)) fp w (logging_error (''Error saving attachment: '' @ str e) w1)"
      using su by (simp add: logging_error_def saved_under_log)
    then show ?thesis using ih[OF c] by (blast intro: saved_under_trans)
  next
    case (Inr o1)
    show ?thesis
    proof (cases o1)
      case None
      have c: "collect_attachments atts fp allowed acc w1 = (details, w')"
        using Cons.prems d Inr None by simp
      show ?thesis using ih[OF c] su by (blast intro: saved_under_trans)
    next
      case (Some x)
      have c: "collect_attachments atts fp allowed (acc @ [x]) w1 = (details, w')"
        using Cons.prems d Inr Some by simp
      have x: "path x = join fp [name x]" "fs w1 (resolve (path x)) \<noteq> None" "name x = FileName att"
        using download_attachment_Some(5,6)[OF d[unfolded Inr Some]] by simp_all
      have keep: "\<forall>p. fs w1 p \<noteq> None \<longrightarrow> fs w' p \<noteq> None"
        using ih[OF c] by (simp add: saved_under_def)
      have a: "saved_under (set (att # atts)) fp w w'"
        using ih[OF c] su by (blast intro: saved_under_trans)
      have b: "\<forall>d \<in> set details. d \<in> set acc \<or>
              (path d = join fp [name d] \<and> fs w' (resolve (path d)) \<noteq> None \<and>
               (\<exists>a \<in> set (att # atts). name d = FileName a))"
      proof
        fix d assume "d \<in> set details"
        then have "d \<in> set (acc @ [x]) \<or>
              (path d = join fp [name d] \<and> fs w' (resolve (path d)) \<noteq> None \<and>
               (\<exists>a \<in> set (att # atts). name d = FileName a))"
          using ih[OF c] by blast
        then show "d \<in> set acc \<or>
              (path d = join fp [name d] \<and> fs w' (resolve (path d)) \<noteq> None \<and>
               (\<exists>a \<in> set (att # atts). name d = FileName a))"
          using x keep by auto
      qed
      show ?thesis using a b by (rule conjI)
    qed
  qed
qed

definition files_under :: "attachment set \<Rightarrow> string \<Rightarrow> filesystem \<Rightarrow> email_detail \<Rightarrow> bool" where
  "files_under A folderPath f e =
     (\<forall>d \<in> set (files e). path d = join folderPath [name d] \<and> f (resolve (path d)) \<noteq> None \<and>
                           (\<exists>att \<in> A. name d = FileName att))"

lemma files_under_keep:
  "files_under A fp f e \<Longrightarrow> \<forall>p. f p \<noteq> None \<longrightarrow> g p \<noteq> None \<Longrightarrow> files_under A fp g e"
  unfolding files_under_def by metis

lemma files_under_mono: "files_under A fp f e \<Longrightarrow> A \<subseteq> B \<Longrightarrow> files_under B fp f e"
  unfolding files_under_def by fast

lemma build_email_detail_files: "build_email_detail msg ds = Inr r \<Longrightarrow> files r = ds"
  by (auto simp: build_email_detail_def read_attribute_def split: option.splits)

lemma process_email_saved_under:
  assumes "process_email msg emails fp allowed w = (emails', w')"
  shows "saved_under (set (Attachments msg)) fp w w'"
    and "\<forall>e \<in> set emails'. e \<in> set emails \<or> files_under (set (Attachments msg)) fp (fs w') e"
proof -
  have "saved_under (set (Attachments msg)) fp w w' \<and>
        (\<forall>e \<in> set emails'. e \<in> set emails \<or> files_under (set (Attachments msg)) fp (fs w') e)"
  proof (cases "read_fault msg Attachments_attribute")
  case (Some e)
  then have "emails' = emails" "w' = logging_error (''Error processing email: '' @ str e) w"
    using assms by (simp_all add: process_email_def)
  then show ?thesis
    by (simp add: logging_error_def saved_under_log saved_under_refl)
next
  case None
  obtain ds w1 where c: "collect_attachments (Attachments msg) fp (or_empty allowed) [] w = (ds, w1)"
    by (cases "collect_attachments (Attachments msg) fp (or_empty allowed) [] w")
  note ca = collect_attachments_saved_under[OF c]
  have a: "saved_under (set (Attachments msg)) fp w w'"
    using assms c ca None
    by (cases "build_email_detail msg ds")
       (auto simp: process_email_def logging_error_def saved_under_log)
  have b: "\<forall>e \<in> set emails'. e \<in> set emails \<or> files_under (set (Attachments msg)) fp (fs w') e"
  proof (cases "build_email_detail msg ds")
    case (Inl e)
    then show ?thesis using assms c None by (auto simp: process_email_def)
  next
    case (Inr r)
    have "files_under (set (Attachments msg)) fp (fs w1) r"
      using ca build_email_detail_files[OF Inr] by (auto simp: files_under_def)
    then show ?thesis using assms c Inr None by (auto simp: process_email_def)
  qed
  show ?thesis using a b by (rule conjI)
  qed
  then show "saved_under (set (Attachments msg)) fp w w'"
    and "\<forall>e \<in> set emails'. e \<in> set emails \<or> files_under (set (Attachments msg)) fp (fs w') e"
    by simp_all
qed

lemma attachments_of_Cons:
  "attachments_of (msg # messages) = set (Attachments msg) \<union> attachments_of messages"
  by (simp add: attachments_of_def)

lemma process_messages_saved_under:
  "process_messages messages include_read emails fp allowed w = (emails', w')
   \<Longrightarrow> saved_under (attachments_of (filter (\<lambda>msg. include_read \<or> UnRead msg) messages)) fp w w'
       \<and> (\<forall>e \<in> set emails'. e \<in> set emails \<or>
             files_under (attachments_of (filter (\<lambda>msg. include_read \<or> UnRead msg) messages)) fp (fs w') e)"
proof (induction messages arbitrary: emails w)
  case Nil
  then show ?case by (auto simp: saved_under_refl)
next
  case (Cons msg messages)
  define A where "A = attachments_of (filter (\<lambda>msg. include_read \<or> UnRead msg) (msg # messages))"
  define B where "B = attachments_of (filter (\<lambda>msg. include_read \<or> UnRead msg) messages)"
  have BA: "B \<subseteq> A" unfolding A_def B_def by (auto simp: attachments_of_def)
  show ?case
  proof (cases "(\<not> include_read \<and> UnRead msg) \<or> include_read")
    case True
    then have mA: "set (Attachments msg) \<subseteq> A" unfolding A_def by (auto simp: attachments_of_def)
    obtain emails1 w1 where p: "process_email msg emails fp allowed w = (emails1, w1)"
      by (cases "process_email msg emails fp allowed w")
    have r: "process_messages messages include_read emails1 fp allowed w1 = (emails', w')"
      using Cons.prems True p by auto
    note pe = process_email_saved_under[OF p]
    have ih1: "saved_under A fp w1 w'"
      using Cons.IH[OF r] BA unfolding B_def[symmetric] by (blast intro: saved_under_mono)
    have ih2: "\<forall>e \<in> set emails'. e \<in> set emails1 \<or> files_under A fp (fs w') e"
      using Cons.IH[OF r] BA unfolding B_def[symmetric] by (blast intro: files_under_mono)
    have pe1: "saved_under A fp w w1" using pe(1) mA by (rule saved_under_mono)
    have pe2: "\<forall>e \<in> set emails1. e \<in> set emails \<or> files_under A fp (fs w1) e"
      using pe(2) mA by (blast intro: files_under_mono)
    have keep: "\<forall>q. fs w1 q \<noteq> None \<longrightarrow> fs w' q \<noteq> None" using ih1 by (simp add: saved_under_def)
    have "\<forall>e \<in> set emails'. e \<in> set emails \<or> files_under A fp (fs w') e"
      using ih2 pe2 files_under_keep[OF _ keep] by blast
    then show ?thesis
      unfolding A_def[symmetric] using ih1 pe1 by (blast intro: saved_under_trans)
  next
    case False
    then have "process_messages messages include_read emails fp allowed w = (emails', w')"
      using Cons.prems by auto
    from Cons.IH[OF this] show ?thesis
      unfolding A_def[symmetric] B_def[symmetric] using BA
      by (blast intro: saved_under_mono files_under_mono)
  qed
qed

lemma scan_folder_cases:
  assumes "scan_folder subj folder_name fp allowed include_read since emails0 w = (r, emails, w')"
  shows "(emails = emails0 \<and> r \<noteq> Inr Completed \<and> (w' = w \<or> (\<exists>m. w' = logging_error m w)))
       \<or> (r = Inr Completed \<and>
           process_messages (found_messages subj folder_name since w) include_read emails0 fp allowed w
             = (emails, w'))"
proof (cases "com_fault w Dispatch_Outlook")
  case (Some e)
  then show ?thesis using assms by (auto simp: scan_folder_def)
next
  case n1: None
  show ?thesis
  proof (cases "com_fault w GetNamespace")
    case (Some e)
    then show ?thesis using assms n1 by (auto simp: scan_folder_def)
  next
    case n2: None
    show ?thesis
    proof (cases "com_fault w GetDefaultFolder")
      case (Some e)
      then show ?thesis using assms n1 n2 by (auto simp: scan_folder_def)
    next
      case n3: None
      show ?thesis
      proof (cases "List.find (\<lambda>folder. folder_Name folder = folder_name) (Folders w)")
        case None
        then show ?thesis using assms n1 n2 n3 by (auto simp: scan_folder_def)
      next
        case (Some found_folder)
        show ?thesis
        proof (cases "com_fault w (Restrict_call (subject_query subj))")
          case s: (Some e)
          then show ?thesis using assms n1 n2 n3 Some by (auto simp: scan_folder_def)
        next
          case n4: None
          define sel where "sel =
             (case since of
              None \<Rightarrow> Inr (Restrict w (subject_query subj) (Items found_folder))
            | Some d \<Rightarrow>
                (case com_fault w (Restrict_call (date_query d)) of
                   Some e \<Rightarrow> Inl e
                 | None \<Rightarrow>
                     Inr (Restrict w (date_query d)
                            (Restrict w (subject_query subj) (Items found_folder)))))"
          have sf: "scan_folder subj folder_name fp allowed include_read since emails0 w =
              (case sel of Inl e \<Rightarrow> (Inl e, emails0, w) | Inr messages \<Rightarrow>
                 case com_fault w Sort_call of Some e \<Rightarrow> (Inl e, emails0, w) | None \<Rightarrow>
                 case process_messages (Sort w messages) include_read emails0 fp allowed w of
                   (emails1, w1) \<Rightarrow> (Inr Completed, emails1, w1))"
            using n1 n2 n3 Some n4 by (simp add: scan_folder_def sel_def)
          have fm: "sel = Inr messages \<Longrightarrow> Sort w messages = found_messages subj folder_name since w"
            for messages
            using Some by (auto simp: sel_def found_messages_def split: option.splits)
          show ?thesis
          proof (cases sel)
            case (Inl e)
            then show ?thesis using assms sf by auto
          next
            case (Inr messages)
            note fm' = fm[OF Inr]
            show ?thesis
            proof (cases "com_fault w Sort_call")
              case s: (Some e)
              then show ?thesis using assms sf Inr by auto
            next
              case None
              then show ?thesis
                using assms sf Inr fm'
                by (cases "process_messages (Sort w messages) include_read emails0 fp allowed w")
                   auto
            qed
          qed
        qed
      qed
    qed
  qed
qed

lemma scan_folder_saved_under:
  assumes "scan_folder subj folder_name fp allowed include_read since [] w = (r, emails, w')"
  shows "saved_under (scanned_attachments subj folder_name include_read since w) fp w w'"
    and "\<forall>e \<in> set emails. files_under (scanned_attachments subj folder_name include_read since w) fp (fs w') e"
proof -
  note c = scan_folder_cases[OF assms]
  note pm = process_messages_saved_under
      [of "found_messages subj folder_name since w" include_read "[]" fp allowed w emails w',
       folded scanned_attachments_def]
  show "saved_under (scanned_attachments subj folder_name include_read since w) fp w w'"
    using c pm by (auto simp: saved_under_refl logging_error_def saved_under_log)
  show "\<forall>e \<in> set emails. files_under (scanned_attachments subj folder_name include_read since w) fp (fs w') e"
    using c pm by auto
qed

lemma validate_and_scan_saved_under:
  assumes "validate_and_scan email subj folder_name fp allowed include_read since w = (r, w')"
  shows "saved_under (scanned_attachments subj folder_name include_read since w) fp w w' \<and>
         (\<exists>emails. r = Inr emails \<and>
            (\<forall>e \<in> set emails.
               files_under (scanned_attachments subj folder_name include_read since w) fp (fs w') e))"
proof (cases "is_valid_email email")
  case False
  then have "r = Inr []" "w' = logging_error (''Invalid email addresses provided: '' @ email) w"
    using assms by (simp_all add: validate_and_scan_def)
  then show ?thesis
    by (simp add: logging_error_def saved_under_log saved_under_refl)
next
  case True
  obtain r1 emails w1 where s: "scan_folder subj folder_name fp allowed include_read since [] w = (r1, emails, w1)"
    by (cases "scan_folder subj folder_name fp allowed include_read since [] w") auto
  note su = scan_folder_saved_under[OF s]
  have "r = Inr emails \<and> (\<exists>l. w' = w1\<lparr>log_records := l\<rparr>)"
  proof (cases r1)
    case (Inl e)
    then show ?thesis
      using assms True s by (auto simp: validate_and_scan_def logging_info_def logging_error_def)
  next
    case (Inr fl)
    then show ?thesis
      using assms True s
      by (cases fl) (auto simp: validate_and_scan_def logging_info_def intro: exI[of _ "log_records w1"])
  qed
  then obtain l where r: "r = Inr emails" and w': "w' = w1\<lparr>log_records := l\<rparr>" by blast
  show ?thesis using su r w' by (simp add: saved_under_log)
qed


subsection \<open>Saves go into the ensured directory (C3)\<close>



lemma same_dirs_isdir: "same_dirs f g \<Longrightarrow> isdir f p = isdir g p"
  by (simp add: same_dirs_def isdir_def)








subsection \<open>Resolving the destination directory (C10)\<close>

lemma relative_path_Nil: "relative_path []"
  by (simp add: relative_path_def)

lemma resolve_join_trailing:
  assumes "drive_absolute a"
  shows "resolve (join a [[]]) = resolve a"
proof -
  have s: "sep \<in> set seps" by (simp add: sep_def seps_def)
  show ?thesis
    using join_drive_relative[OF assms relative_path_Nil] resolve_trailing_sep[OF s, of a]
    by (cases "last a \<in> set seps") simp_all
qed

lemma folder_path_relative:
  assumes "drive_absolute (MyDocuments w)" "relative_path output_dir"
  shows "resolve (folder_path output_dir w) =
           norm_components (resolve (MyDocuments w)) (components output_dir)"
    and "dotdot_free output_dir \<Longrightarrow>
           resolve (folder_path output_dir w) = resolve (MyDocuments w) @ resolve output_dir"
proof -
  have s: "sep \<in> set seps" by (simp add: sep_def seps_def)
  have ne: "MyDocuments w \<noteq> []" using assms(1) by (auto simp: drive_absolute_def)
  have "resolve (join (MyDocuments w) [output_dir]) =
          norm_components (resolve (MyDocuments w)) (components output_dir)"
    using join_drive_relative[OF assms] resolve_append[of "MyDocuments w" output_dir]
      resolve_snoc_sep[OF s, of "MyDocuments w" output_dir] ne
    by (cases "last (MyDocuments w) \<in> set seps") simp_all
  then show g: "resolve (folder_path output_dir w) =
           norm_components (resolve (MyDocuments w)) (components output_dir)"
    using resolve_join_trailing[OF join_drive_relative_absolute[OF assms]]
    by (simp add: folder_path_def)
  show "resolve (folder_path output_dir w) = resolve (MyDocuments w) @ resolve output_dir"
    if "dotdot_free output_dir"
    using that g norm_components_dotdot_free[of "components output_dir"]
    by (simp add: dotdot_free_def resolve_def)
qed

lemma folder_path_absolute:
  assumes "drive_absolute output_dir"
  shows "folder_path output_dir w = join output_dir [[]]"
    and "resolve (folder_path output_dir w) = resolve output_dir"
  using join_absolute[OF assms, of "MyDocuments w"] resolve_join_trailing[OF assms]
  by (simp_all add: folder_path_def)

lemma get_emails_returns_with_folder:
  assumes "get_emails email subj folder_name output_dir allowed include_read since w = (Inr emails, w')"
  shows "isdir (fs w') (folder_path output_dir w)" "\<not> is_valid_email email \<longrightarrow> emails = []"
proof -
  obtain r1 w1 where e: "ensure_folder output_dir w = (r1, w1)"
    by (cases "ensure_folder output_dir w")
  show "\<not> is_valid_email email \<longrightarrow> emails = []"
    using assms e
    by (cases r1) (auto simp: get_emails_split and_then_def validate_and_scan_def)
  show "isdir (fs w') (folder_path output_dir w)"
  proof (cases r1)
    case (Inl x)
    then show ?thesis using assms e by (simp add: get_emails_split and_then_def)
  next
    case (Inr folderPath)
    note ef = ensure_folder_Inr[OF e[unfolded Inr]]
    have vs: "validate_and_scan email subj folder_name folderPath allowed include_read since w1 =
                (Inr emails, w')"
      using assms e Inr by (simp add: get_emails_split and_then_def)
    have "same_dirs (fs w1) (fs w')"
      using validate_and_scan_saved_under[OF vs] by (simp add: saved_under_def)
    then show ?thesis using ef(1,2) same_dirs_isdir[of "fs w1" "fs w'" folderPath] by simp
  qed
qed

definition other_drive_dir :: string where
  "other_drive_dir = ''D:'' @ [sep] @ ''out''"

text \<open>C10, as stated, fails: an \<open>output_dir\<close> that is itself an absolute path is taken
  literally. With Documents at \<open>C:\Users\u\Documents\<close> and \<open>output_dir\<close> \<open>D:\out\<close>, the
  destination is \<open>D:\out\\<close>, which is not below Documents; a call with an invalid address
  returns the empty list and leaves exactly that directory created.\<close>

theorem absolute_output_dir_taken_literally:
  "create_folder other_drive_dir sample_world = (Inr (other_drive_dir @ [sep]), sample_world)
   \<and> resolve (other_drive_dir @ [sep]) = [''D:'', ''out'']
   \<and> resolve (MyDocuments sample_world) = [''C:'', ''Users'', ''u'', ''Documents'']
   \<and> \<not> is_valid_email ''nobody''
   \<and> fst (get_emails ''nobody'' ''Report'' ''Reports'' other_drive_dir None False None sample_world) = Inr []
   \<and> isdir (fs (snd (get_emails ''nobody'' ''Report'' ''Reports'' other_drive_dir None False None
                       sample_world))) other_drive_dir
   \<and> \<not> exists (fs (snd (get_emails ''nobody'' ''Report'' ''Reports'' other_drive_dir None False None
                       sample_world))) (MyDocuments sample_world)"
proof -
  have a: "fst (create_folder other_drive_dir sample_world) = Inr (other_drive_dir @ [sep])"
    by code_simp
  have a': "create_folder other_drive_dir sample_world = (Inr (other_drive_dir @ [sep]), sample_world)"
    using a create_folder_world[of other_drive_dir sample_world] by (metis prod.collapse)
  have b: "resolve (other_drive_dir @ [sep]) = [''D:'', ''out'']" by code_simp
  have c: "resolve (MyDocuments sample_world) = [''C:'', ''Users'', ''u'', ''Documents'']" by code_simp
  have d: "\<not> is_valid_email ''nobody''" by code_simp
  have e: "fst (get_emails ''nobody'' ''Report'' ''Reports'' other_drive_dir None False None sample_world) = Inr []"
    by code_simp
  have f: "isdir (fs (snd (get_emails ''nobody'' ''Report'' ''Reports'' other_drive_dir None False None
                       sample_world))) other_drive_dir"
    by code_simp
  have g: "\<not> exists (fs (snd (get_emails ''nobody'' ''Report'' ''Reports'' other_drive_dir None False None
                       sample_world))) (MyDocuments sample_world)"
    by code_simp
  show ?thesis using a' b c d e f g by simp
qed

text \<open>C10, amended. \<open>get_emails\<close> resolves the destination as
  \<open>os.path.join(os.path.join(Documents, output_dir), '')\<close>. When Documents is a drive-letter
  path and \<open>output_dir\<close> is relative, the destination is reached from Documents by following
  the components of \<open>output_dir\<close>: it is the subdirectory of Documents named by \<open>output_dir\<close>
  when none of these components is \<open>..\<close>; a component \<open>..\<close> steps back to the parent, so that
  the destination can lie outside Documents.
  When \<open>output_dir\<close> is itself a drive-letter absolute path it replaces the Documents
  prefix and is used as given. The directory is created before the account address is
  validated: whenever \<open>get_emails\<close> returns, the directory exists, and with an invalid
  address what it returns is the empty list.\<close>

theorem destination_resolved_and_created_first:
  "(com_fault w Dispatch_WScript_Shell = None \<and> com_fault w SpecialFolders = None \<longrightarrow>
      create_folder output_dir w = (Inr (join (join (MyDocuments w) [output_dir]) [[]]), w))
   \<and> (drive_absolute (MyDocuments w) \<and> relative_path output_dir \<longrightarrow>
        resolve (folder_path output_dir w) =
          norm_components (resolve (MyDocuments w)) (components output_dir)
      \<and> (dotdot_free output_dir \<longrightarrow>
           resolve (folder_path output_dir w) = resolve (MyDocuments w) @ resolve output_dir))
   \<and> (drive_absolute output_dir \<longrightarrow>
        folder_path output_dir w = join output_dir [[]] \<and>
        resolve (folder_path output_dir w) = resolve output_dir)
   \<and> (\<forall>emails w'.
        get_emails email subj folder_name output_dir allowed_file_types include_read since w = (Inr emails, w')
        \<longrightarrow> isdir (fs w') (folder_path output_dir w) \<and> (\<not> is_valid_email email \<longrightarrow> emails = []))"
  using folder_path_relative[of w output_dir] folder_path_absolute[of output_dir w]
    get_emails_returns_with_folder[of email subj folder_name output_dir allowed_file_types include_read since w]
  by (auto simp: create_folder_result folder_path_def)

theorem destination_resolved_and_created_first_witness:
  "drive_absolute (MyDocuments sample_world) \<and> relative_path ''out'' \<and> dotdot_free ''out''
   \<and> resolve (folder_path ''out'' sample_world) = [''C:'', ''Users'', ''u'', ''Documents'', ''out'']
   \<and> relative_path ''..''
   \<and> resolve (folder_path ''..'' sample_world) = [''C:'', ''Users'', ''u'']
   \<and> \<not> is_valid_email ''nobody''
   \<and> fst (get_emails ''nobody'' ''Report'' ''Reports'' ''out'' None False None sample_world) = Inr []
   \<and> isdir (fs (snd (get_emails ''nobody'' ''Report'' ''Reports'' ''out'' None False None sample_world)))
        (folder_path ''out'' sample_world)"
proof -
  have a: "drive_absolute (MyDocuments sample_world)" by code_simp
  have b: "relative_path ''out''" "dotdot_free ''out''" "relative_path ''..''" by code_simp+
  have c: "resolve (MyDocuments sample_world) @ resolve ''out'' = [''C:'', ''Users'', ''u'', ''Documents'', ''out'']"
    by code_simp
  have c': "norm_components (resolve (MyDocuments sample_world)) (components ''..'') =
              [''C:'', ''Users'', ''u'']"
    by code_simp
  have d: "\<not> is_valid_email ''nobody''" by code_simp
  have e: "fst (get_emails ''nobody'' ''Report'' ''Reports'' ''out'' None False None sample_world) = Inr []"
    by code_simp
  have p: "get_emails ''nobody'' ''Report'' ''Reports'' ''out'' None False None sample_world =
           (Inr [], snd (get_emails ''nobody'' ''Report'' ''Reports'' ''out'' None False None sample_world))"
    using e by (metis prod.collapse)
  have "resolve (folder_path ''out'' sample_world) = resolve (MyDocuments sample_world) @ resolve ''out''"
    using destination_resolved_and_created_first
      [of sample_world "''out''" "''nobody''" "''Report''" "''Reports''" None False None] a b
    by blast
  then have t1: "resolve (folder_path ''out'' sample_world) = [''C:'', ''Users'', ''u'', ''Documents'', ''out'']"
    using c by simp
  have "resolve (folder_path ''..'' sample_world) =
          norm_components (resolve (MyDocuments sample_world)) (components ''..'')"
    using destination_resolved_and_created_first
      [of sample_world "''..''" "''nobody''" "''Report''" "''Reports''" None False None] a b
    by blast
  then have t2: "resolve (folder_path ''..'' sample_world) = [''C:'', ''Users'', ''u'']"
    using c' by simp
  have t3: "isdir (fs (snd (get_emails ''nobody'' ''Report'' ''Reports'' ''out'' None False None sample_world)))
        (folder_path ''out'' sample_world)"
    using destination_resolved_and_created_first
      [of sample_world "''out''" "''nobody''" "''Report''" "''Reports''" None False None] p
    by blast
  show ?thesis using a b d e t1 t2 t3 by simp
qed

subsection \<open>Early returns (C6)\<close>








section \<open>Sending (C4, C9)\<close>

definition no_com_fault :: "world \<Rightarrow> bool" where
  "no_com_fault w = (\<forall>c. com_fault w c = None)"

lemma com_ok: "no_com_fault w \<Longrightarrow> com c w = (Inr (), w)"
  by (simp add: com_def no_com_fault_def)

lemma Attachments_Add_ok:
  "no_com_fault w \<Longrightarrow> exists (fs w) p \<Longrightarrow>
     Attachments_Add p mail w = (Inr (mail\<lparr>mail_Attachments := mail_Attachments mail @ [(p, None)]\<rparr>), w)"
  by (simp add: Attachments_Add_def com_ok and_then_def)

lemma add_embedded_images_ok:
  assumes "no_com_fault w" "\<forall>p \<in> set images. exists (fs w) p"
  shows "add_embedded_images images mail w =
     (Inr (mail\<lparr>mail_Attachments :=
                  mail_Attachments mail @ map (\<lambda>p. (p, Some (basename p))) images\<rparr>), w)"
  using assms
proof (induction images arbitrary: mail)
  case Nil
  then show ?case by simp
next
  case (Cons p images)
  then show ?case by (simp add: Attachments_Add_ok com_ok)
qed

text \<open>The paths the attachment loop looks at (line 126), and the warning it logs for one
  that does not exist (line 130).\<close>

definition attachment_paths :: "world \<Rightarrow> (string \<rightharpoonup> string) list \<Rightarrow> string list" where
  "attachment_paths w attachments = map (\<lambda>attachment. abspath w (the (attachment ''path''))) attachments"

definition not_found_warnings :: "filesystem \<Rightarrow> string list \<Rightarrow> (level \<times> string) list" where
  "not_found_warnings f paths =
     map (\<lambda>p. (WARNING, ''Attachment not found: '' @ p)) (filter (\<lambda>p. \<not> exists f p) paths)"

lemma abspath_log [simp]: "abspath (w\<lparr>log_records := l\<rparr>) p = abspath w p"
  by (simp add: abspath_def)

lemma no_com_fault_log [simp]: "no_com_fault (w\<lparr>log_records := l\<rparr>) = no_com_fault w"
  by (simp add: no_com_fault_def)

lemma attachment_paths_log [simp]:
  "attachment_paths (w\<lparr>log_records := l\<rparr>) attachments = attachment_paths w attachments"
  by (simp add: attachment_paths_def)

lemma add_attachments_ok:
  assumes "no_com_fault w" "\<forall>a \<in> set attachments. a ''path'' \<noteq> None"
  shows "add_attachments attachments mail w =
     (Inr (mail\<lparr>mail_Attachments :=
                  mail_Attachments mail @
                  map (\<lambda>p. (p, None)) (filter (exists (fs w)) (attachment_paths w attachments))\<rparr>),
      w\<lparr>log_records := log_records w @ not_found_warnings (fs w) (attachment_paths w attachments)\<rparr>)"
  using assms
proof (induction attachments arbitrary: mail w)
  case Nil
  then show ?case by (simp add: attachment_paths_def not_found_warnings_def)
next
  case (Cons a attachments)
  obtain p where p: "a ''path'' = Some p" using Cons.prems(2) by auto
  have rest: "\<forall>a \<in> set attachments. a ''path'' \<noteq> None" using Cons.prems(2) by simp
  show ?case
  proof (cases "exists (fs w) (abspath w p)")
    case True
    show ?thesis
      using p True Cons.prems(1) Cons.IH[OF Cons.prems(1) rest]
      by (simp add: Attachments_Add_ok attachment_paths_def not_found_warnings_def Let_def)
  next
    case False
    have nf: "no_com_fault (logging_warning (''Attachment not found: '' @ abspath w p) w)"
      using Cons.prems(1) by (simp add: logging_warning_def)
    show ?thesis
      using p False Cons.IH[OF nf rest, of mail]
      by (simp add: attachment_paths_def not_found_warnings_def Let_def logging_warning_def)
  qed
qed

definition composed_mail ::
  "string \<Rightarrow> string \<Rightarrow> string \<Rightarrow> (string \<rightharpoonup> string) list option \<Rightarrow> bool \<Rightarrow> string list option
   \<Rightarrow> string list option \<Rightarrow> string list option \<Rightarrow> world \<Rightarrow> mail_item" where
  "composed_mail to subj body_text attachments html_body cc bcc embedded_images w =
     \<lparr>mail_To = to, mail_Subject = subj,
      mail_CC = (if truthy cc then or_empty cc else []),
      mail_BCC = (if truthy bcc then or_empty bcc else []),
      mail_Body = (if html_body then [] else body_text),
      mail_HTMLBody = (if html_body then body_text else []),
      mail_Attachments =
        map (\<lambda>p. (p, Some (basename p))) (or_empty embedded_images) @
        map (\<lambda>p. (p, None))
          (filter (exists (fs w)) (attachment_paths w (or_empty attachments)))\<rparr>"

lemma compose_and_send_ok:
  assumes "no_com_fault w" "\<forall>p \<in> set (or_empty embedded_images). exists (fs w) p"
    and "\<forall>a \<in> set (or_empty attachments). a ''path'' \<noteq> None"
  shows "compose_and_send to subj body_text attachments html_body cc bcc embedded_images w =
     (Inr (),
      w\<lparr>log_records := log_records w
           @ not_found_warnings (fs w) (attachment_paths w (or_empty attachments))
           @ [(INFO, ''Email sent successfully.'')],
        outbox := outbox w
           @ [composed_mail to subj body_text attachments html_body cc bcc embedded_images w]\<rparr>)"
proof -
  define w2 where "w2 = w\<lparr>log_records := log_records w
           @ not_found_warnings (fs w) (attachment_paths w (or_empty attachments))\<rparr>"
  have nf2: "no_com_fault w2" using assms(1) by (simp add: w2_def)
  show ?thesis
    unfolding compose_and_send_def
    using assms(1) nf2
    by (simp add: com_ok and_then_def add_embedded_images_ok[OF assms(1,2)]
          add_attachments_ok[OF assms(1,3)] w2_def[symmetric] composed_mail_def empty_mail_def
          logging_info_def)
       (simp add: w2_def)
qed

text \<open>C9. The claim is about the attachment loop (lines 123-130), which a call reaches when
  the preconditions of sending hold: the mail client is reachable and the recipient is
  valid. When moreover no call to the client fails, every embedded image exists and every
  attachment entry has a \<open>path\<close>, a call whose \<open>attachments\<close> name paths that do not exist
  still returns the success status: exactly one message is sent, it carries the embedded
  images followed by the attachments whose paths exist, in order, and one warning is
  logged for every path that does not exist.\<close>

theorem missing_attachments_are_skipped:
  assumes "is_outlook_installed w = (Inr True, w1)" "is_valid_email to"
    and "no_com_fault w"
    and "\<forall>p \<in> set (or_empty embedded_images). exists (fs w1) p"
    and "\<forall>a \<in> set (or_empty attachments). a ''path'' \<noteq> None"
  shows "send_email_via_outlook to subj body_text attachments html_body cc bcc embedded_images w =
     (Inr ''Email sent successfully.'',
      w1\<lparr>log_records := log_records w1
           @ not_found_warnings (fs w1) (attachment_paths w1 (or_empty attachments))
           @ [(INFO, ''Email sent successfully.'')],
         outbox := outbox w1
           @ [composed_mail to subj body_text attachments html_body cc bcc embedded_images w1]\<rparr>)
   \<and> map fst (mail_Attachments
                (composed_mail to subj body_text attachments html_body cc bcc embedded_images w1)) =
       or_empty embedded_images @
       filter (exists (fs w1)) (attachment_paths w1 (or_empty attachments))"
proof -
  have cf: "com_fault w1 = com_fault w"
    using assms(1) by (auto simp: is_outlook_installed_def Let_def logging_error_def split: option.splits)
  have nf: "no_com_fault w1" using assms(3) cf by (simp add: no_com_fault_def)
  show ?thesis
    using assms(1,2) compose_and_send_ok[OF nf assms(4,5), of to subj body_text html_body cc bcc]
    by (simp add: send_email_via_outlook_def and_then_def composed_mail_def comp_def)
qed

definition report_path :: string where
  "report_path = home_dir @ [sep] @ ''report.pdf''"

definition missing_path :: string where
  "missing_path = home_dir @ [sep] @ ''missing.txt''"

definition mail_world :: world where
  "mail_world =
     sample_world\<lparr>fs := (\<lambda>p. if p = [''C:'', ''Users'', ''u'', ''report.pdf''] then Some (File ''%PDF'')
                               else if p \<noteq> [] \<and> prefix p [''C:'', ''Users'', ''u''] then Some Dir
                               else None)\<rparr>"

theorem missing_attachments_are_skipped_witness:
  "is_valid_email ''alice@example.com'' \<and> no_com_fault mail_world
   \<and> fst (is_outlook_installed mail_world) = Inr True
   \<and> abspath mail_world ''missing.txt'' = missing_path
   \<and> \<not> exists (fs (snd (is_outlook_installed mail_world))) missing_path
   \<and> fst (send_email_via_outlook ''alice@example.com'' ''Hi'' ''text''
             (Some [[''path'' \<mapsto> report_path], [''path'' \<mapsto> ''missing.txt'']]) False None None None
             mail_world) = Inr ''Email sent successfully.''
   \<and> map (\<lambda>mail. map fst (mail_Attachments mail))
        (outbox (snd (send_email_via_outlook ''alice@example.com'' ''Hi'' ''text''
             (Some [[''path'' \<mapsto> report_path], [''path'' \<mapsto> ''missing.txt'']]) False None None None
             mail_world))) = [[report_path]]
   \<and> log_records (snd (send_email_via_outlook ''alice@example.com'' ''Hi'' ''text''
             (Some [[''path'' \<mapsto> report_path], [''path'' \<mapsto> ''missing.txt'']]) False None None None
             mail_world)) =
       [(WARNING, ''Attachment not found: '' @ missing_path), (INFO, ''Email sent successfully.'')]"
proof -
  define w1 where "w1 = snd (is_outlook_installed mail_world)"
  have v: "is_valid_email ''alice@example.com''" by code_simp
  have nf: "no_com_fault mail_world"
    by (simp add: no_com_fault_def mail_world_def sample_world_def)
  have i: "fst (is_outlook_installed mail_world) = Inr True" by code_simp
  have i': "is_outlook_installed mail_world = (Inr True, w1)"
    using i unfolding w1_def by (metis prod.collapse)
  have ab: "abspath mail_world ''missing.txt'' = missing_path" by code_simp
  have m: "\<not> exists (fs w1) missing_path" unfolding w1_def by code_simp
  have im: "\<forall>p \<in> set (or_empty (None :: string list option)). exists (fs w1) p"
    by (simp add: or_empty_def)
  have k: "\<forall>a \<in> set (or_empty (Some [[''path'' \<mapsto> report_path], [''path'' \<mapsto> ''missing.txt'']])).
             a ''path'' \<noteq> None"
    by (simp add: or_empty_def)
  have f: "filter (exists (fs w1))
             (attachment_paths w1 (or_empty (Some [[''path'' \<mapsto> report_path], [''path'' \<mapsto> ''missing.txt'']])))
           = [report_path]"
    unfolding w1_def by code_simp
  have n: "not_found_warnings (fs w1)
             (attachment_paths w1 (or_empty (Some [[''path'' \<mapsto> report_path], [''path'' \<mapsto> ''missing.txt'']])))
           = [(WARNING, ''Attachment not found: '' @ missing_path)]"
    unfolding w1_def by code_simp
  have l: "log_records w1 = []" unfolding w1_def by code_simp
  have ob: "outbox w1 = []"
    using i' by (auto simp: is_outlook_installed_def Let_def mail_world_def sample_world_def
                   logging_error_def split: option.splits)
  note th = missing_attachments_are_skipped[OF i' v nf im k, of "''Hi''" "''text''" False None None]
  show ?thesis
    using th v nf i ab m f n l ob unfolding w1_def[symmetric] by (simp add: or_empty_def)
qed

text \<open>C4. \<open>is_outlook_installed\<close> joins \<open>os.environ.get('LOCALAPPDATA')\<close> with two path
  components before its \<open>try\<close> (line 49). When the variable is not set, \<open>get\<close> returns
  \<open>None\<close> and \<open>os.path.join\<close> raises \<open>TypeError\<close>; neither \<open>is_outlook_installed\<close> nor
  \<open>send_email_via_outlook\<close> catches it, so the call raises instead of returning a status,
  whatever its arguments.\<close>

theorem send_raises_without_localappdata:
  assumes "environ_LOCALAPPDATA w = None"
  shows "\<exists>w'. send_email_via_outlook to subj body_text attachments html_body cc bcc embedded_images w =
     (Inl (Exn TypeError ''expected str, bytes or os.PathLike object, not NoneType''), w')"
  using assms by (simp add: send_email_via_outlook_def is_outlook_installed_def and_then_def Let_def)

definition stripped_world :: world where
  "stripped_world = sample_world\<lparr>environ_LOCALAPPDATA := None\<rparr>"

theorem send_raises_without_localappdata_witness:
  "environ_LOCALAPPDATA stripped_world = None
   \<and> is_valid_email ''alice@example.com''
   \<and> fst (send_email_via_outlook ''alice@example.com'' ''Hi'' ''text'' None False None None None
             stripped_world) =
       Inl (Exn TypeError ''expected str, bytes or os.PathLike object, not NoneType'')"
proof -
  have a: "environ_LOCALAPPDATA stripped_world = None" by (simp add: stripped_world_def)
  have v: "is_valid_email ''alice@example.com''" by code_simp
  show ?thesis
    using send_raises_without_localappdata[OF a, of "''alice@example.com''" "''Hi''" "''text''" None False None None None]
      a v
    by auto
qed

text \<open>With the variable set, and the cached modules deleted without an error (as
  \<open>is_outlook_installed\<close> has it here), \<open>send_email_via_outlook\<close> never raises: it returns one of four
  status strings, and which one is decided by the failure mode. The three failure
  statuses differ from one another and from the success status, whatever the recipient
  and the exception text.\<close>

lemma status_strings_distinct:
  "''Outlook is not installed or accessible.'' \<noteq> ''Invalid email addresses provided: '' @ to
   \<and> ''Outlook is not installed or accessible.'' \<noteq> ''Error sending email: '' @ msg
   \<and> ''Invalid email addresses provided: '' @ to \<noteq> ''Error sending email: '' @ msg
   \<and> ''Email sent successfully.'' \<noteq> ''Outlook is not installed or accessible.''
   \<and> ''Email sent successfully.'' \<noteq> ''Invalid email addresses provided: '' @ to
   \<and> ''Email sent successfully.'' \<noteq> ''Error sending email: '' @ msg"
  by simp

theorem send_returns_status_when_localappdata_set:
  assumes "environ_LOCALAPPDATA w = Some localappdata"
  shows "(\<exists>installed w1. is_outlook_installed w = (Inr installed, w1) \<and>
     fst (send_email_via_outlook to subj body_text attachments html_body cc bcc embedded_images w) =
       Inr (if \<not> installed then ''Outlook is not installed or accessible.''
            else if \<not> is_valid_email to then ''Invalid email addresses provided: '' @ to
            else (case fst (compose_and_send to subj body_text attachments html_body cc bcc
                              embedded_images w1) of
                    Inl e \<Rightarrow> ''Error sending email: '' @ str e
                  | Inr u \<Rightarrow> ''Email sent successfully.'')))
   \<and> (\<forall>to' msg.
         ''Outlook is not installed or accessible.'' \<noteq> ''Invalid email addresses provided: '' @ to'
       \<and> ''Outlook is not installed or accessible.'' \<noteq> ''Error sending email: '' @ msg
       \<and> ''Invalid email addresses provided: '' @ to' \<noteq> ''Error sending email: '' @ msg
       \<and> ''Email sent successfully.'' \<noteq> ''Outlook is not installed or accessible.''
       \<and> ''Email sent successfully.'' \<noteq> ''Invalid email addresses provided: '' @ to'
       \<and> ''Email sent successfully.'' \<noteq> ''Error sending email: '' @ msg)"
proof -
  have "\<exists>installed w1. is_outlook_installed w = (Inr installed, w1)"
    using assms
    by (cases "com_fault w EnsureDispatch") (auto simp: is_outlook_installed_def Let_def)
  then obtain installed w1 where i: "is_outlook_installed w = (Inr installed, w1)" by blast
  obtain r w2 where c: "compose_and_send to subj body_text attachments html_body cc bcc embedded_images w1 = (r, w2)"
    by (cases "compose_and_send to subj body_text attachments html_body cc bcc embedded_images w1")
  have "fst (send_email_via_outlook to subj body_text attachments html_body cc bcc embedded_images w) =
       Inr (if \<not> installed then ''Outlook is not installed or accessible.''
            else if \<not> is_valid_email to then ''Invalid email addresses provided: '' @ to
            else (case fst (compose_and_send to subj body_text attachments html_body cc bcc
                              embedded_images w1) of
                    Inl e \<Rightarrow> ''Error sending email: '' @ str e
                  | Inr u \<Rightarrow> ''Email sent successfully.''))"
    using i c by (cases r) (auto simp: send_email_via_outlook_def and_then_def)
  then show ?thesis using i status_strings_distinct by blast
qed

definition unreachable_world :: world where
  "unreachable_world =
     sample_world\<lparr>com_fault := (\<lambda>c. if c = EnsureDispatch
                                      then Some (Exn com_error ''Invalid class string'') else None)\<rparr>"

theorem send_returns_status_when_localappdata_set_witness:
  "(\<exists>d. environ_LOCALAPPDATA unreachable_world = Some d)
   \<and> fst (is_outlook_installed unreachable_world) = Inr False
   \<and> fst (send_email_via_outlook ''alice@example.com'' ''Hi'' ''text'' None False None None None
             unreachable_world) = Inr ''Outlook is not installed or accessible.''"
proof -
  have a: "environ_LOCALAPPDATA unreachable_world
             = Some (''C:'' @ [sep] @ ''Users'' @ [sep] @ ''u'' @ [sep] @ ''AppData'')"
    by (simp add: unreachable_world_def sample_world_def)
  have b: "fst (is_outlook_installed unreachable_world) = Inr False" by code_simp
  show ?thesis
    using send_returns_status_when_localappdata_set[OF a, of "''alice@example.com''" "''Hi''" "''text''" None False None None None]
      a b
    by auto
qed

end
